theory Spec2Isabelle
  imports Complex_Main "HOL-Library.Monad_Syntax"
begin

section \<open>The values the server receives\<close>

text \<open>
  \<^verbatim>\<open>server.js\<close> reads \<^verbatim>\<open>req.body\<close>, the request body as \<^verbatim>\<open>express.json()\<close> parsed it:
  a JSON value. Looking a missing key up gives \<^verbatim>\<open>undefined\<close>, so \<open>Undefined\<close> is a value
  too. A Number is a binary64 float: not-a-number, an infinity, or a finite value, which
  is a rational (the two zeros are both \<open>Fin 0\<close>: the program never tells them apart).
  An object is the list of its own properties; a string is its list of code units, for
  code units below 256.
\<close>

datatype jsnum = NaN | PInf | NInf | Fin rat

datatype jsval =
    Undefined
  | JNull
  | JBool bool
  | JNum jsnum
  | JStr string
  | JArr "jsval list"
  | JObj "(string \<times> jsval) list"

text \<open>
  What the program uses of the JavaScript engine and does not define itself:
  \<open>round64 x\<close> is the Number nearest to the exact value \<open>x\<close> (what reading a decimal
  literal and every arithmetic operation round to), \<open>frac_str x\<close> is \<^verbatim>\<open>Number::toString\<close>
  of a finite value that is not an integer below \<open>10^21\<close> (the shortest digits that
  read back as \<open>x\<close>, in exponent notation from \<open>10^21\<close>), and \<open>upper\<close> is
  \<^verbatim>\<open>String.prototype.toUpperCase\<close>. They are parameters: every theorem holds for each
  choice of them.
\<close>

record engine =
  round64 :: "rat \<Rightarrow> jsnum"
  frac_str :: "rat \<Rightarrow> string"
  upper :: "string \<Rightarrow> string"

text \<open>\<^verbatim>\<open>ToBoolean\<close>: what \<^verbatim>\<open>||\<close>, \<^verbatim>\<open>!\<close>, \<^verbatim>\<open>if\<close> and \<^verbatim>\<open>? :\<close> test.\<close>

fun truthy :: "jsval \<Rightarrow> bool" where
  "truthy Undefined = False"
| "truthy JNull = False"
| "truthy (JBool b) = b"
| "truthy (JNum n) = (n \<noteq> NaN \<and> n \<noteq> Fin 0)"
| "truthy (JStr s) = (s \<noteq> [])"
| "truthy (JArr xs) = True"
| "truthy (JObj kvs) = True"

text \<open>
  A throw is the result \<open>None\<close>. \<open>get_prop v k\<close> is \<^verbatim>\<open>v.k\<close> (or \<^verbatim>\<open>v['k']\<close>) for the keys
  the program reads; none of them is a property of a prototype, so only an object's own
  property answers, and reading a property of \<^verbatim>\<open>undefined\<close> or \<^verbatim>\<open>null\<close> throws a TypeError.
\<close>

fun get_prop :: "jsval \<Rightarrow> string \<Rightarrow> jsval option" where
  "get_prop Undefined k = None"
| "get_prop JNull k = None"
| "get_prop (JObj kvs) k = Some (case map_of kvs k of None \<Rightarrow> Undefined | Some v \<Rightarrow> v)"
| "get_prop v k = Some Undefined"

text \<open>\<^verbatim>\<open>a || b\<close>: \<open>b\<close> is evaluated (and may throw) only when \<open>a\<close> is falsy.\<close>

definition lor :: "jsval option \<Rightarrow> jsval option \<Rightarrow> jsval option" where
  "lor ma mb = (case ma of None \<Rightarrow> None | Some a \<Rightarrow> if truthy a then Some a else mb)"

subsection \<open>String builtins\<close>

fun startsWith :: "string \<Rightarrow> string \<Rightarrow> bool" where
  "startsWith [] s = True"
| "startsWith (p # ps) [] = False"
| "startsWith (p # ps) (c # cs) = (p = c \<and> startsWith ps cs)"

definition endsWith :: "string \<Rightarrow> string \<Rightarrow> bool" where
  "endsWith suf s = startsWith (rev suf) (rev s)"

fun str_includes :: "string \<Rightarrow> string \<Rightarrow> bool" where
  "str_includes p [] = (p = [])"
| "str_includes p (c # cs) = (startsWith p (c # cs) \<or> str_includes p cs)"

text \<open>
  White space and line terminators (what \<^verbatim>\<open>\s\<close>, \<^verbatim>\<open>trim\<close> and the number parsers skip):
  tab, line feed, vertical tab, form feed, carriage return, space, no-break space.
\<close>

definition is_ws :: "char \<Rightarrow> bool" where
  "is_ws c = (c \<in> set [CHR 0x09, CHR 0x0A, CHR 0x0B, CHR 0x0C, CHR 0x0D, CHR 0x20, CHR 0xA0])"

definition trim :: "string \<Rightarrow> string" where
  "trim s = rev (dropWhile is_ws (rev (dropWhile is_ws s)))"

text \<open>
  \<^verbatim>\<open>v?.includes(x)\<close> and \<^verbatim>\<open>v?.endsWith(x)\<close> for a string \<open>x\<close>: \<^verbatim>\<open>undefined\<close> when \<open>v\<close> is
  \<^verbatim>\<open>undefined\<close> or \<^verbatim>\<open>null\<close>; the string method on a string; the array method on an array
  (an element that is the string \<open>x\<close>); a TypeError on every other value, which has no
  such method.
\<close>

fun opt_includes :: "jsval \<Rightarrow> string \<Rightarrow> jsval option" where
  "opt_includes Undefined x = Some Undefined"
| "opt_includes JNull x = Some Undefined"
| "opt_includes (JStr s) x = Some (JBool (str_includes x s))"
| "opt_includes (JArr xs) x = Some (JBool (JStr x \<in> set xs))"
| "opt_includes v x = None"

fun opt_endsWith :: "jsval \<Rightarrow> string \<Rightarrow> jsval option" where
  "opt_endsWith Undefined x = Some Undefined"
| "opt_endsWith JNull x = Some Undefined"
| "opt_endsWith (JStr s) x = Some (JBool (endsWith x s))"
| "opt_endsWith v x = None"

subsection \<open>Numbers and strings\<close>

definition digit_char :: "nat \<Rightarrow> char" where
  "digit_char d = ''0123456789'' ! d"

fun digits_of :: "nat \<Rightarrow> string" where
  "digits_of n = (if n < 10 then [digit_char n] else digits_of (n div 10) @ [digit_char (n mod 10)])"

declare digits_of.simps [simp del]

definition is_int :: "rat \<Rightarrow> bool" where
  "is_int x = (of_int \<lfloor>x\<rfloor> = x)"

text \<open>\<^verbatim>\<open>Number::toString\<close>: an integer below \<open>10^21\<close> is written in plain decimal digits.\<close>

definition num_to_string :: "engine \<Rightarrow> jsnum \<Rightarrow> string" where
  "num_to_string E n =
     (case n of
        NaN \<Rightarrow> ''NaN''
      | PInf \<Rightarrow> ''Infinity''
      | NInf \<Rightarrow> ''-Infinity''
      | Fin x \<Rightarrow>
          if is_int x \<and> \<bar>x\<bar> < 10 ^ 21
          then (if x < 0 then ''-'' else '''') @ digits_of (nat \<lfloor>\<bar>x\<bar>\<rfloor>)
          else frac_str E x)"

text \<open>
  \<^verbatim>\<open>ToString\<close>, which a template literal and the number parsers apply. An array joins the
  strings of its elements with commas (\<^verbatim>\<open>undefined\<close> and \<^verbatim>\<open>null\<close> give the empty string). An
  object gives \<^verbatim>\<open>[object Object]\<close>, unless it has an own property \<^verbatim>\<open>toString\<close>: a JSON value
  is never a function, so the conversion finds nothing to call and throws a TypeError.
\<close>

fun to_string :: "engine \<Rightarrow> jsval \<Rightarrow> string option"
  and join_elems :: "engine \<Rightarrow> jsval list \<Rightarrow> string option" where
  "to_string E Undefined = Some ''undefined''"
| "to_string E JNull = Some ''null''"
| "to_string E (JBool b) = Some (if b then ''true'' else ''false'')"
| "to_string E (JNum n) = Some (num_to_string E n)"
| "to_string E (JStr s) = Some s"
| "to_string E (JArr xs) = join_elems E xs"
| "to_string E (JObj kvs) =
     (if map_of kvs ''toString'' = None then Some ''[object Object]'' else None)"
| "join_elems E [] = Some []"
| "join_elems E (x # xs) =
     do {
       s \<leftarrow> (if x = Undefined \<or> x = JNull then Some [] else to_string E x);
       if xs = [] then Some s
       else do { r \<leftarrow> join_elems E xs; Some (s @ '','' @ r) }
     }"

definition is_digit :: "char \<Rightarrow> bool" where
  "is_digit c = (48 \<le> (of_char c :: nat) \<and> (of_char c :: nat) \<le> 57)"

definition digits_val :: "string \<Rightarrow> nat" where
  "digits_val ds = foldl (\<lambda>a d. 10 * a + (of_char d - 48)) 0 ds"

text \<open>The sign a numeric string starts with, and the rest.\<close>

definition strip_sign :: "string \<Rightarrow> bool \<times> string" where
  "strip_sign t =
     (case t of
        [] \<Rightarrow> (False, t)
      | c # r \<Rightarrow> if c = CHR ''-'' then (True, r) else if c = CHR ''+'' then (False, r) else (False, t))"

text \<open>The exponent part \<^verbatim>\<open>e\<close>, sign, digits; \<open>0\<close> when the text does not start with one.\<close>

definition exponent_part :: "string \<Rightarrow> int" where
  "exponent_part w =
     (case w of
        [] \<Rightarrow> 0
      | c # r \<Rightarrow>
          if c = CHR ''e'' \<or> c = CHR ''E'' then
            (let (neg, ds) = strip_sign r; e = takeWhile is_digit ds
             in if e = [] then 0 else if neg then - int (digits_val e) else int (digits_val e))
          else 0)"

definition scale10 :: "rat \<Rightarrow> int \<Rightarrow> rat" where
  "scale10 m e = (if 0 \<le> e then m * 10 ^ nat e else m / 10 ^ nat (- e))"

text \<open>
  \<^verbatim>\<open>parseFloat\<close> of a string: skip white space, then read the longest prefix that is a
  decimal literal (sign, \<^verbatim>\<open>Infinity\<close> or digits with an optional fraction and exponent);
  the result is \<^verbatim>\<open>NaN\<close> when there is none. The rest of the string is ignored.
\<close>

definition parseFloat_str :: "engine \<Rightarrow> string \<Rightarrow> jsnum" where
  "parseFloat_str E s =
     (let (neg, u) = strip_sign (dropWhile is_ws s) in
      if startsWith ''Infinity'' u then (if neg then NInf else PInf)
      else
        let ip = takeWhile is_digit u;
            v = dropWhile is_digit u;
            (fp, w) = (case v of
                         [] \<Rightarrow> ([], v)
                       | c # r \<Rightarrow> if c = CHR ''.''
                                  then (takeWhile is_digit r, dropWhile is_digit r)
                                  else ([], v))
        in if ip = [] \<and> fp = [] then NaN
           else
             let m = of_nat (digits_val (ip @ fp)) / 10 ^ length fp
             in round64 E (scale10 (if neg then - m else m) (exponent_part w)))"

definition parseFloat :: "engine \<Rightarrow> jsval \<Rightarrow> jsnum option" where
  "parseFloat E v = map_option (parseFloat_str E) (to_string E v)"

text \<open>
  \<^verbatim>\<open>parseInt\<close> with no radix: skip white space, a sign, then hexadecimal digits after
  \<^verbatim>\<open>0x\<close> or decimal digits; \<^verbatim>\<open>NaN\<close> when there is no digit.
\<close>

definition hex_val :: "char \<Rightarrow> nat option" where
  "hex_val c =
     (let n = (of_char c :: nat) in
      if 48 \<le> n \<and> n \<le> 57 then Some (n - 48)
      else if 97 \<le> n \<and> n \<le> 102 then Some (n - 87)
      else if 65 \<le> n \<and> n \<le> 70 then Some (n - 55)
      else None)"

definition hex_digits_val :: "string \<Rightarrow> nat" where
  "hex_digits_val ds = foldl (\<lambda>a d. 16 * a + the (hex_val d)) 0 ds"

definition parseInt_str :: "engine \<Rightarrow> string \<Rightarrow> jsnum" where
  "parseInt_str E s =
     (let (neg, u) = strip_sign (dropWhile is_ws s);
          hex = (startsWith ''0x'' u \<or> startsWith ''0X'' u);
          z = (if hex then takeWhile (\<lambda>c. hex_val c \<noteq> None) (drop 2 u) else takeWhile is_digit u);
          n = (if hex then hex_digits_val z else digits_val z)
      in if z = [] then NaN else round64 E (if neg then - of_nat n else of_nat n))"

definition parseInt :: "engine \<Rightarrow> jsval \<Rightarrow> jsnum option" where
  "parseInt E v = map_option (parseInt_str E) (to_string E v)"

text \<open>
  \<^verbatim>\<open>x.toFixed(f)\<close>: a value that is not finite, or is \<open>10^21\<close> or more, is written as
  \<^verbatim>\<open>Number::toString\<close> writes it; every other value is rounded to \<open>f\<close> decimals (the
  nearest, the larger of two) and written with exactly \<open>f\<close> digits after the point.
\<close>

definition toFixed :: "engine \<Rightarrow> nat \<Rightarrow> jsnum \<Rightarrow> string" where
  "toFixed E f n =
     (case n of
        Fin x \<Rightarrow>
          (let s = (if x < 0 then ''-'' else ''''); a = \<bar>x\<bar> in
           if 10 ^ 21 \<le> a then s @ num_to_string E (Fin a)
           else
             let d = digits_of (nat \<lfloor>a * 10 ^ f + 1 / 2\<rfloor>);
                 m = (if f \<noteq> 0 \<and> length d \<le> f then replicate (f + 1 - length d) CHR ''0'' @ d else d)
             in if f = 0 then s @ m
                else s @ take (length m - f) m @ ''.'' @ drop (length m - f) m)
      | _ \<Rightarrow> num_to_string E n)"

text \<open>\<^verbatim>\<open>a > b\<close>, \<^verbatim>\<open>Math.min(a, b)\<close> and \<^verbatim>\<open>a + b\<close> on Numbers.\<close>

fun num_gt :: "jsnum \<Rightarrow> jsnum \<Rightarrow> bool" where
  "num_gt NaN b = False"
| "num_gt a NaN = False"
| "num_gt PInf b = (b \<noteq> PInf)"
| "num_gt NInf b = False"
| "num_gt (Fin x) PInf = False"
| "num_gt (Fin x) NInf = True"
| "num_gt (Fin x) (Fin y) = (y < x)"

definition num_min :: "jsnum \<Rightarrow> jsnum \<Rightarrow> jsnum" where
  "num_min a b = (if a = NaN \<or> b = NaN then NaN else if num_gt b a then a else b)"

fun num_add :: "engine \<Rightarrow> jsnum \<Rightarrow> jsnum \<Rightarrow> jsnum" where
  "num_add E NaN b = NaN"
| "num_add E a NaN = NaN"
| "num_add E PInf b = (if b = NInf then NaN else PInf)"
| "num_add E NInf b = (if b = PInf then NaN else NInf)"
| "num_add E (Fin x) PInf = PInf"
| "num_add E (Fin x) NInf = NInf"
| "num_add E (Fin x) (Fin y) = round64 E (x + y)"

text \<open>
  An engine to run the definitions with: exact arithmetic and the upper case of the ASCII
  letters. The inputs it is run on have no number that \<open>frac_str\<close> would have to write.
\<close>

definition ascii_upper :: "char \<Rightarrow> char" where
  "ascii_upper c =
     (case map_of (zip ''abcdefghijklmnopqrstuvwxyz'' ''ABCDEFGHIJKLMNOPQRSTUVWXYZ'') c of
        None \<Rightarrow> c
      | Some u \<Rightarrow> u)"

definition exact_engine :: engine where
  "exact_engine = \<lparr> round64 = Fin, frac_str = (\<lambda>x. ''?''), upper = map ascii_upper \<rparr>"

section \<open>Regular expressions\<close>

text \<open>
  The three regular expressions of \<^verbatim>\<open>generateHangTagPDF\<close> use single characters and
  character classes, sequence, alternation, \<^verbatim>\<open>X*\<close>, \<^verbatim>\<open>X*?\<close> and \<^verbatim>\<open>X?\<close> on a class \<open>X\<close>,
  one capture group and \<^verbatim>\<open>$\<close>. A class is a predicate on characters.
\<close>

datatype rx =
    Chr "char \<Rightarrow> bool"
  | Seq rx rx
  | Alt rx rx
  | Star "char \<Rightarrow> bool"
  | Lazy "char \<Rightarrow> bool"
  | Opt rx
  | Grp rx
  | Eos
  | Eps

text \<open>
  A backtracking matcher, as the language defines matching: \<open>rx_run r (s, g)\<close> lists, in
  the order backtracking tries them, the ways \<open>r\<close> matches a prefix of \<open>s\<close>: what is left of
  \<open>s\<close>, and the capture (\<open>g\<close> before this match). The left alternative comes first, \<^verbatim>\<open>X*\<close>
  and \<^verbatim>\<open>X?\<close> take as much as they can first, \<^verbatim>\<open>X*?\<close> as little. \<^verbatim>\<open>$\<close> matches at the end of
  the string only (no \<^verbatim>\<open>m\<close> flag).
\<close>

fun star_run :: "(char \<Rightarrow> bool) \<Rightarrow> string \<Rightarrow> string list" where
  "star_run P [] = [[]]"
| "star_run P (c # cs) = (if P c then star_run P cs else []) @ [c # cs]"

fun lazy_run :: "(char \<Rightarrow> bool) \<Rightarrow> string \<Rightarrow> string list" where
  "lazy_run P [] = [[]]"
| "lazy_run P (c # cs) = (c # cs) # (if P c then lazy_run P cs else [])"

fun rx_run :: "rx \<Rightarrow> string \<times> string option \<Rightarrow> (string \<times> string option) list" where
  "rx_run (Chr P) (s, g) = (case s of [] \<Rightarrow> [] | c # cs \<Rightarrow> if P c then [(cs, g)] else [])"
| "rx_run (Seq a b) st = concat (map (rx_run b) (rx_run a st))"
| "rx_run (Alt a b) st = rx_run a st @ rx_run b st"
| "rx_run (Star P) (s, g) = map (\<lambda>r. (r, g)) (star_run P s)"
| "rx_run (Lazy P) (s, g) = map (\<lambda>r. (r, g)) (lazy_run P s)"
| "rx_run (Opt a) st = rx_run a st @ [st]"
| "rx_run (Grp a) (s, g) =
     map (\<lambda>(r, g'). (r, Some (take (length s - length r) s))) (rx_run a (s, g))"
| "rx_run Eos (s, g) = (if s = [] then [(s, g)] else [])"
| "rx_run Eps st = [st]"

text \<open>The match of \<open>r\<close> that starts at the head of \<open>s\<close>: the first way, when there is one.\<close>

definition rx_at :: "rx \<Rightarrow> string \<Rightarrow> (string \<times> string option) option" where
  "rx_at r s = (case rx_run r (s, None) of [] \<Rightarrow> None | m # ms \<Rightarrow> Some m)"

text \<open>
  \<^verbatim>\<open>s.match(r)\<close> without the \<^verbatim>\<open>g\<close> flag: the match at the first position that has one
  (the end of the string is a position too); the result is its capture group 1, and
  \<open>None\<close> is \<^verbatim>\<open>null\<close>.
\<close>

fun rx_exec :: "rx \<Rightarrow> string \<Rightarrow> string option option" where
  "rx_exec r [] = map_option snd (rx_at r [])"
| "rx_exec r (c # cs) =
     (case rx_at r (c # cs) of Some m \<Rightarrow> Some (snd m) | None \<Rightarrow> rx_exec r cs)"

text \<open>
  \<^verbatim>\<open>s.replace(r, '')\<close> with the \<^verbatim>\<open>g\<close> flag: every match is deleted, and the search goes on
  after it; after an empty match it goes on one character further.
\<close>

function replace_all :: "rx \<Rightarrow> string \<Rightarrow> string" where
  "replace_all r [] = []"
| "replace_all r (c # cs) =
     (case rx_at r (c # cs) of
        None \<Rightarrow> c # replace_all r cs
      | Some m \<Rightarrow>
          if length (fst m) < length (c # cs) then replace_all r (fst m)
          else c # replace_all r cs)"
  by pat_completeness auto
termination
  by (relation "measure (\<lambda>(r, s). length s)") auto

text \<open>
  \<^verbatim>\<open>s.split(r)\<close> for a non-empty \<open>s\<close>, with \<open>piece\<close> the text since the last separator: at
  each position but the end, a match of \<open>r\<close> that is not empty ends the piece, and the
  search goes on after the match; the last piece is what is left. An empty match that
  does not start the piece ends it as well.
\<close>

function split_from :: "rx \<Rightarrow> string \<Rightarrow> string \<Rightarrow> string list" where
  "split_from r piece [] = [piece]"
| "split_from r piece (c # cs) =
     (case rx_at r (c # cs) of
        None \<Rightarrow> split_from r (piece @ [c]) cs
      | Some m \<Rightarrow>
          if length (fst m) < length (c # cs) then piece # split_from r [] (fst m)
          else if piece = [] then split_from r [c] cs
          else piece # split_from r [] (c # cs))"
  by pat_completeness auto
termination
  by (relation "measures [\<lambda>(r, piece, s). length s, \<lambda>(r, piece, s). length piece]") auto

definition split :: "rx \<Rightarrow> string \<Rightarrow> string list" where
  "split r s = split_from r [] s"

text \<open>
  Under the \<^verbatim>\<open>i\<close> flag a letter of the pattern matches both of its cases. Only the ASCII
  letters have another case that is a single ASCII character.
\<close>

definition ci :: "char \<Rightarrow> rx" where
  "ci p = Chr (\<lambda>c. ascii_upper c = ascii_upper p)"

definition lit :: "char \<Rightarrow> rx" where
  "lit p = Chr (\<lambda>c. c = p)"

definition seqs :: "rx list \<Rightarrow> rx" where
  "seqs rs = foldr Seq rs Eps"

text \<open>\<^verbatim>\<open>.\<close> matches every character but a line terminator.\<close>

definition dot :: "char \<Rightarrow> bool" where
  "dot c = (c \<noteq> CHR 0x0A \<and> c \<noteq> CHR 0x0D)"

text \<open>\<^verbatim>\<open>/INCLUDES\s*:\s*(.*?)(?:<\/?[^>]*>|$)/i\<close> (line 97).\<close>

definition includes_re :: rx where
  "includes_re =
     seqs [seqs (map ci ''INCLUDES''), Star is_ws, lit CHR '':'', Star is_ws, Grp (Lazy dot),
           Alt (seqs [lit CHR ''<'', Opt (lit CHR ''/''), Star (\<lambda>c. c \<noteq> CHR ''>''), lit CHR ''>''])
               Eos]"

text \<open>\<^verbatim>\<open>/<[^>]*>/g\<close> (line 98).\<close>

definition tag_re :: rx where
  "tag_re = seqs [lit CHR ''<'', Star (\<lambda>c. c \<noteq> CHR ''>''), lit CHR ''>'']"

text \<open>\<^verbatim>\<open>/[,;]|and\s+/i\<close> (line 146).\<close>

definition sep_re :: rx where
  "sep_re =
     Alt (Chr (\<lambda>c. c = CHR '','' \<or> c = CHR '';''))
         (seqs [seqs (map ci ''and''), Chr is_ws, Star is_ws])"

section \<open>\<^verbatim>\<open>generateHangTagPDF\<close>\<close>

subsection \<open>Extracting the product data (lines 83 to 98)\<close>

record fields =
  isRecon :: jsval
  price :: jsnum
  comparePrice :: jsnum
  title :: jsval
  vendor :: jsval
  sku :: jsval
  includesText :: string

text \<open>
  \<^verbatim>\<open>bodyHtml.match(r)\<close>: \<open>bodyHtml\<close> is a string or a truthy value of another type, which
  has no method \<^verbatim>\<open>match\<close>.
\<close>

fun str_match :: "jsval \<Rightarrow> rx \<Rightarrow> string option option option" where
  "str_match (JStr s) r = Some (rx_exec r s)"
| "str_match v r = None"

text \<open>\<^verbatim>\<open>isRecon\<close> (lines 84 to 87).\<close>

definition recon_flag :: "jsval \<Rightarrow> jsval option" where
  "recon_flag product =
     lor (lor (lor (do { t \<leftarrow> get_prop product ''tags''; opt_includes t ''Recon'' })
                   (do { t \<leftarrow> get_prop product ''tags''; opt_includes t ''recon'' }))
              (do { k \<leftarrow> get_prop product ''sku''; opt_endsWith k ''-R'' }))
         (do { k \<leftarrow> get_prop product ''Variant SKU''; opt_endsWith k ''-R'' })"

text \<open>\<^verbatim>\<open>parseFloat(product[k1] || product[k2] || 0)\<close> (lines 89 and 90).\<close>

definition amount :: "engine \<Rightarrow> jsval \<Rightarrow> string \<Rightarrow> string \<Rightarrow> jsnum option" where
  "amount E product k1 k2 =
     do {
       v \<leftarrow> lor (lor (get_prop product k1) (get_prop product k2)) (Some (JNum (Fin 0)));
       parseFloat E v
     }"

text \<open>\<^verbatim>\<open>product[k1] || product[k2] || d\<close> for a string \<open>d\<close> (lines 91, 92, 93 and 96).\<close>

definition text_or :: "jsval \<Rightarrow> string \<Rightarrow> string \<Rightarrow> string \<Rightarrow> jsval option" where
  "text_or product k1 k2 d = lor (lor (get_prop product k1) (get_prop product k2)) (Some (JStr d))"

text \<open>\<^verbatim>\<open>includesText\<close> of \<^verbatim>\<open>bodyHtml\<close> (lines 97 and 98).\<close>

definition includes_of :: "jsval \<Rightarrow> string option" where
  "includes_of bodyHtml =
     do {
       includesMatch \<leftarrow> str_match bodyHtml includes_re;
       (case includesMatch of
          None \<Rightarrow> Some []
        | Some None \<Rightarrow> None
        | Some (Some g) \<Rightarrow> Some (trim (replace_all tag_re g)))
     }"

definition extract_fields :: "engine \<Rightarrow> jsval \<Rightarrow> fields option" where
  "extract_fields E product =
     do {
       isRecon \<leftarrow> recon_flag product;
       price \<leftarrow> amount E product ''price'' ''Variant Price'';
       comparePrice \<leftarrow> amount E product ''compare_at_price'' ''Variant Compare At Price'';
       title \<leftarrow> text_or product ''title'' ''Title'' ''Product'';
       vendor \<leftarrow> text_or product ''vendor'' ''Vendor'' ''Brand'';
       sku \<leftarrow> text_or product ''sku'' ''Variant SKU'' [];
       bodyHtml \<leftarrow> text_or product ''body_html'' ''Body (HTML)'' [];
       includesText \<leftarrow> includes_of bodyHtml;
       Some \<lparr> isRecon = isRecon, price = price, comparePrice = comparePrice, title = title,
              vendor = vendor, sku = sku, includesText = includesText \<rparr>
     }"

subsection \<open>Drawing the tag (lines 71 to 74, 100 to 197)\<close>

text \<open>
  The document is what the program calls on it, in order: the calls are all the program
  decides of it. A text is drawn at a position, with the options of the call.
\<close>

datatype text_opt = Width rat | Align string | LineGap rat | Strike bool

datatype draw_op =
    NewDocument rat rat rat
  | Rect rat rat rat rat
  | FillAndStroke string string
  | Stroke string
  | FontSize jsnum
  | Font string
  | FillColor string
  | Text jsval jsnum jsnum "text_opt list"
  | DocEnd

text \<open>
  The string literal that starts a bullet line (line 155), by the bytes of the source
  file: the characters U+201A, U+00C4, U+00A2 and a space.
\<close>

definition bullet :: string where
  "bullet = [CHR 0xE2, CHR 0x80, CHR 0x9A, CHR 0xC3, CHR 0x84, CHR 0xC2, CHR 0xA2, CHR 0x20]"

text \<open>The items of the includes text \<open>t\<close> (lines 146 to 149).\<close>

definition includeItems :: "string \<Rightarrow> string list" where
  "includeItems t =
     take 4 (filter (\<lambda>item. 0 < length item) (map trim (split sep_re t)))"

text \<open>\<^verbatim>\<open>includeItems.forEach\<close> (lines 154 to 157): the calls, and \<^verbatim>\<open>currentY\<close> after them.\<close>

fun draw_items :: "engine \<Rightarrow> string list \<Rightarrow> jsnum \<Rightarrow> draw_op list \<times> jsnum" where
  "draw_items E [] currentY = ([], currentY)"
| "draw_items E (item # items) currentY =
     (let (ops, y) = draw_items E items (num_add E currentY (Fin 9))
      in (Text (JStr (bullet @ item)) (Fin 12) currentY [Width 170] # ops, y))"

text \<open>The includes section for the includes text \<open>t\<close> (lines 136 to 160): the calls, and \<^verbatim>\<open>currentY\<close> after them.\<close>

definition draw_includes :: "engine \<Rightarrow> string \<Rightarrow> draw_op list \<times> jsnum" where
  "draw_includes E t =
     (if t \<noteq> [] then
        (let (ops, y) = draw_items E (includeItems t) (num_add E (Fin 175) (Fin 12))
         in ([FontSize (Fin 8), Font ''Helvetica-Bold-Oblique'', FillColor ''black'',
              Text (JStr ''INCLUDES:'') (Fin 12) (Fin 175) [],
              FontSize (Fin 7), Font ''Helvetica''] @ ops,
             num_add E y (Fin 5)))
      else ([], Fin 175))"

text \<open>\<^verbatim>\<open>parseInt(v) || d\<close> (lines 116 and 163).\<close>

definition size_or :: "engine \<Rightarrow> jsval \<Rightarrow> rat \<Rightarrow> jsnum option" where
  "size_or E v d = map_option (\<lambda>n. if truthy (JNum n) then n else Fin d) (parseInt E v)"

text \<open>The MSRP line (lines 173 to 183), drawn at \<^verbatim>\<open>currentY\<close>.\<close>

definition draw_msrp :: "engine \<Rightarrow> fields \<Rightarrow> jsnum \<Rightarrow> draw_op list" where
  "draw_msrp E f currentY =
     (if num_gt (comparePrice f) (price f) \<and> num_gt (comparePrice f) (Fin 0) then
        [FontSize (Fin 10), Font ''Helvetica-Oblique'', FillColor ''#666666'',
         Text (JStr (''MSRP $'' @ toFixed E 2 (comparePrice f))) (Fin 30) currentY
           [Width 134, Align ''center'', Strike True]]
      else [])"

text \<open>The reconditioned bar (lines 185 to 195).\<close>

definition draw_recon :: "fields \<Rightarrow> draw_op list" where
  "draw_recon f =
     (if truthy (isRecon f) then
        [Rect 0 240 (972 / 5) (114 / 5), FillAndStroke ''#3182ce'' ''#3182ce'',
         FontSize (Fin 8), Font ''Helvetica-Bold'', FillColor ''white'',
         Text (JStr ''Factory Reconditioned Tool'') (Fin 8) (Fin 248) [],
         Text (sku f) (Fin 130) (Fin 248) []]
      else [])"

text \<open>
  All the calls, from \<^verbatim>\<open>new PDFDocument\<close> to \<^verbatim>\<open>doc.end()\<close>; \<open>None\<close> when an expression
  between them throws.
\<close>

definition draw :: "engine \<Rightarrow> fields \<Rightarrow> jsval \<Rightarrow> draw_op list option" where
  "draw E f options =
     do {
       vendorUpper \<leftarrow> (case vendor f of JStr s \<Rightarrow> Some (upper E s) | _ \<Rightarrow> None);
       skuText \<leftarrow> to_string E (sku f);
       ts \<leftarrow> get_prop options ''titleSize'';
       titleSize \<leftarrow> size_or E ts 11;
       let (includesOps, y1) = draw_includes E (includesText f);
       ps \<leftarrow> get_prop options ''priceSize'';
       priceSize \<leftarrow> size_or E ps 24;
       let scaledPriceSize = num_min priceSize (Fin 28);
       let y2 = num_add E y1 (num_add E scaledPriceSize (Fin 2));
       Some
        ([NewDocument (972 / 5) (1314 / 5) 8,
          Rect 8 15 60 20, FillAndStroke ''#e53e3e'' ''#e53e3e'',
          FontSize (Fin 8), Font ''Helvetica-Bold'', FillColor ''white'',
          Text (JStr vendorUpper) (Fin 12) (Fin 22) [Width 52, Align ''center''],
          FontSize (Fin 10), FillColor ''black'', Font ''Helvetica-Bold'',
          Text (JStr (''Model '' @ skuText)) (Fin 100) (Fin 20) [Width 86, Align ''right''],
          FontSize titleSize, Font ''Helvetica-Bold'', FillColor ''black'',
          Text (title f) (Fin 12) (Fin 45) [Width 170, Align ''center'', LineGap 1],
          Rect 25 85 144 80, Stroke ''#cccccc'',
          FontSize (Fin 8), FillColor ''#999999'',
          Text (JStr ''Product Image'') (Fin 25) (num_add E (Fin 85) (Fin 36))
            [Width 144, Align ''center'']]
         @ includesOps
         @ [FontSize scaledPriceSize, Font ''Helvetica-Bold'', FillColor ''black'',
            Text (JStr (''$'' @ toFixed E 2 (price f))) (Fin 30) y1 [Width 134, Align ''center'']]
         @ draw_msrp E f y2
         @ draw_recon f
         @ [DocEnd])
     }"

text \<open>The default \<^verbatim>\<open>options = {}\<close> (lines 30 and 68): it replaces \<^verbatim>\<open>undefined\<close> only.\<close>

definition default_options :: "jsval \<Rightarrow> jsval" where
  "default_options v = (if v = Undefined then JObj [] else v)"

text \<open>
  The whole function (lines 68 to 203). \<open>pdfkit\<close> is the PDF library: the buffer it makes
  of the calls, or its throw.
  A throw anywhere rejects the promise, and nothing is resolved.
\<close>

definition generateHangTagPDF ::
  "(draw_op list \<Rightarrow> 'b option) \<Rightarrow> engine \<Rightarrow> jsval \<Rightarrow> jsval \<Rightarrow> 'b option" where
  "generateHangTagPDF pdfkit E product options =
     do {
       f \<leftarrow> extract_fields E product;
       ops \<leftarrow> draw E f (default_options options);
       pdfkit ops
     }"

section \<open>The handler of \<^verbatim>\<open>POST /api/generate-tags\<close> (lines 28 to 65)\<close>

text \<open>
  The archive under construction is the list of the calls \<^verbatim>\<open>zip.file(filename, pdfBuffer)\<close>
  made so far, in order.
\<close>

type_synonym 'b zip = "(string \<times> 'b) list"

definition zip_file :: "'b zip \<Rightarrow> string \<Rightarrow> 'b \<Rightarrow> 'b zip" where
  "zip_file z filename pdfBuffer = z @ [(filename, pdfBuffer)]"

text \<open>
  The entries of the archive after these calls, as the archive library keeps them
  (JSZip 3, its \<^verbatim>\<open>file(name, data)\<close> with the default options, where \<^verbatim>\<open>createFolders\<close> is
  true). An entry is a file with its content, or a folder (\<open>None\<close>). Setting a name that
  has an entry replaces the entry where it stands, a new name is added after the others.
\<close>

fun put_entry :: "string \<Rightarrow> 'v \<Rightarrow> (string \<times> 'v) list \<Rightarrow> (string \<times> 'v) list" where
  "put_entry k v [] = [(k, v)]"
| "put_entry k v (e # es) = (if fst e = k then (k, v) # es else e # put_entry k v es)"

text \<open>
  The library's \<^verbatim>\<open>parentFolder\<close>: the path without a slash at its end is cut before its
  last slash; the result is empty when there is no slash, or only the first character is
  one. \<^verbatim>\<open>forceTrailingSlash\<close> adds a slash to a path that does not end with one.
\<close>

definition parentFolder :: "string \<Rightarrow> string" where
  "parentFolder path =
     (case dropWhile (\<lambda>c. c \<noteq> CHR ''/'')
             (rev (if path \<noteq> [] \<and> last path = CHR ''/'' then butlast path else path)) of
        [] \<Rightarrow> []
      | c # r \<Rightarrow> rev r)"

definition forceTrailingSlash :: "string \<Rightarrow> string" where
  "forceTrailingSlash path = (if path \<noteq> [] \<and> last path = CHR ''/'' then path else path @ ''/'')"

text \<open>
  The library's \<^verbatim>\<open>folderAdd\<close>, with the \<^verbatim>\<open>fileAdd\<close> it calls for a folder: a folder that has
  no entry yet gets one, after the entries of the folders above it. \<^verbatim>\<open>fileAdd\<close> for a file
  adds the folders above the file, then sets the entry of the file.
\<close>

function folderAdd :: "string \<Rightarrow> (string \<times> 'b option) list \<Rightarrow> (string \<times> 'b option) list" where
  "folderAdd name files =
     (if forceTrailingSlash name \<in> set (map fst files) then files
      else put_entry (forceTrailingSlash name) None
             (if parentFolder (forceTrailingSlash name) = [] then files
              else folderAdd (parentFolder (forceTrailingSlash name)) files))"
  by pat_completeness auto
termination
proof (relation "measure (\<lambda>(name, files). length name)", goal_cases)
  case (2 name files)
  let ?p = "if name \<noteq> [] \<and> last name = CHR ''/'' then butlast name else name"
  have eq: "parentFolder (forceTrailingSlash name) = parentFolder name"
    by (simp add: parentFolder_def forceTrailingSlash_def)
  with 2(2) have "parentFolder name \<noteq> []" by simp
  then obtain c r where d: "dropWhile (\<lambda>c. c \<noteq> CHR ''/'') (rev ?p) = c # r"
    and p: "parentFolder name = rev r"
    by (auto simp: parentFolder_def split: list.splits)
  have "length (dropWhile (\<lambda>c. c \<noteq> CHR ''/'') (rev ?p)) \<le> length (rev ?p)"
    by (rule length_dropWhile_le)
  with d have "length r < length ?p" by simp
  also have "\<dots> \<le> length name" by simp
  finally show ?case by (simp add: eq p)
qed simp

declare folderAdd.simps [simp del]

definition fileAdd :: "string \<Rightarrow> 'b \<Rightarrow> (string \<times> 'b option) list \<Rightarrow> (string \<times> 'b option) list" where
  "fileAdd name data files =
     put_entry name (Some data)
       (if parentFolder name = [] then files else folderAdd (parentFolder name) files)"

definition zip_entries :: "'b zip \<Rightarrow> (string \<times> 'b option) list" where
  "zip_entries z = foldl (\<lambda>files (name, data). fileAdd name data files) [] z"

text \<open>The name of the entry of product \<open>i\<close> (counted from 0), line 46.\<close>

definition filename_of :: "engine \<Rightarrow> nat \<Rightarrow> jsval \<Rightarrow> string option" where
  "filename_of E i product =
     do {
       v \<leftarrow> lor (lor (get_prop product ''sku'') (get_prop product ''handle''))
                 (Some (JStr (''product-'' @ digits_of (i + 1))));
       name \<leftarrow> to_string E v;
       Some (name @ ''-hangtag.pdf'')
     }"

text \<open>
  One round of the loop (lines 41 to 51): the archive after it, or \<open>None\<close> when the round
  throws. The log line 42 is outside the inner \<^verbatim>\<open>try\<close>; the inner \<^verbatim>\<open>catch\<close> writes its own log
  line (49) and goes on with the archive as it was.
\<close>

definition process_product ::
  "(draw_op list \<Rightarrow> 'b option) \<Rightarrow> engine \<Rightarrow> jsval \<Rightarrow> nat \<Rightarrow> jsval \<Rightarrow> 'b zip \<Rightarrow> 'b zip option" where
  "process_product pdfkit E options i product z =
     do {
       v \<leftarrow> lor (get_prop product ''sku'') (get_prop product ''handle'');
       logged \<leftarrow> to_string E v;
       (case do {
               pdfBuffer \<leftarrow> generateHangTagPDF pdfkit E product options;
               filename \<leftarrow> filename_of E i product;
               Some (zip_file z filename pdfBuffer)
             } of
          Some z' \<Rightarrow> Some z'
        | None \<Rightarrow>
            do {
              k \<leftarrow> get_prop product ''sku'';
              logged' \<leftarrow> to_string E k;
              Some z
            })
     }"

text \<open>The loop (line 40), from product \<open>i\<close> on.\<close>

fun process_from ::
  "(draw_op list \<Rightarrow> 'b option) \<Rightarrow> engine \<Rightarrow> jsval \<Rightarrow> nat \<Rightarrow> jsval list \<Rightarrow> 'b zip \<Rightarrow> 'b zip option" where
  "process_from pdfkit E options i [] z = Some z"
| "process_from pdfkit E options i (product # products) z =
     (case process_product pdfkit E options i product z of
        None \<Rightarrow> None
      | Some z' \<Rightarrow> process_from pdfkit E options (i + 1) products z')"

datatype 'z response = BadRequest | ServerError | Archive 'z

text \<open>
  The handler. \<open>zipgen\<close> is \<^verbatim>\<open>zip.generateAsync\<close> of the archive library: the bytes of
  the archive, or its throw. A throw outside the inner \<^verbatim>\<open>try\<close> is answered with status 500,
  products that are missing or not an array with status 400.
\<close>

definition handler ::
  "(draw_op list \<Rightarrow> 'b option) \<Rightarrow> ('b zip \<Rightarrow> 'z option) \<Rightarrow> engine \<Rightarrow> jsval \<Rightarrow> 'z response" where
  "handler pdfkit zipgen E body =
     (case do {
             products \<leftarrow> get_prop body ''products'';
             opts \<leftarrow> get_prop body ''options'';
             Some (products, default_options opts)
           } of
        None \<Rightarrow> ServerError
      | Some (products, options) \<Rightarrow>
          (case products of
             JArr ps \<Rightarrow>
               (case process_from pdfkit E options 0 ps [] of
                  None \<Rightarrow> ServerError
                | Some z \<Rightarrow> (case zipgen z of None \<Rightarrow> ServerError | Some bytes \<Rightarrow> Archive bytes))
           | _ \<Rightarrow> BadRequest))"

section \<open>Notions the claims are stated with\<close>

text \<open>Line 42 does not throw for the product.\<close>

definition logs :: "engine \<Rightarrow> jsval \<Rightarrow> bool" where
  "logs E product =
     (do { v \<leftarrow> lor (get_prop product ''sku'') (get_prop product ''handle''); to_string E v }
      \<noteq> None)"

text \<open>
  The body of the inner \<^verbatim>\<open>try\<close> for product \<open>i\<close>: the entry it adds to the archive (its name
  and the buffer), or \<open>None\<close> when it throws.
\<close>

definition rendered ::
  "(draw_op list \<Rightarrow> 'b option) \<Rightarrow> engine \<Rightarrow> jsval \<Rightarrow> nat \<Rightarrow> jsval \<Rightarrow> (string \<times> 'b) option" where
  "rendered pdfkit E options i product =
     do {
       pdfBuffer \<leftarrow> generateHangTagPDF pdfkit E product options;
       filename \<leftarrow> filename_of E i product;
       Some (filename, pdfBuffer)
     }"

text \<open>
  The file entries of an archive (name and content), and the names of its folder
  entries.
\<close>

fun file_entries :: "(string \<times> 'b option) list \<Rightarrow> (string \<times> 'b) list" where
  "file_entries [] = []"
| "file_entries ((n, None) # es) = file_entries es"
| "file_entries ((n, Some b) # es) = (n, b) # file_entries es"

fun folder_names :: "(string \<times> 'b option) list \<Rightarrow> string list" where
  "folder_names [] = []"
| "folder_names ((n, None) # es) = n # folder_names es"
| "folder_names ((n, Some b) # es) = folder_names es"

text \<open>The value of a key: \<^verbatim>\<open>undefined\<close> when the record has no such key.\<close>

definition field :: "jsval \<Rightarrow> string \<Rightarrow> jsval" where
  "field product k = (case get_prop product k of None \<Rightarrow> Undefined | Some v \<Rightarrow> v)"

text \<open>
  The tags contain \<open>x\<close>: as a part of the text when the tags are one string, as an element
  when they are a list. The value \<open>v\<close> is a string that ends with \<open>x\<close>.
\<close>

definition contains_tag :: "jsval \<Rightarrow> string \<Rightarrow> bool" where
  "contains_tag t x =
     (case t of JStr s \<Rightarrow> str_includes x s | JArr xs \<Rightarrow> JStr x \<in> set xs | _ \<Rightarrow> False)"

definition ends_in :: "jsval \<Rightarrow> string \<Rightarrow> bool" where
  "ends_in v x = (case v of JStr s \<Rightarrow> endsWith x s | _ \<Rightarrow> False)"

text \<open>The texts of the document that are drawn struck through.\<close>

definition struck_texts :: "draw_op list \<Rightarrow> jsval list" where
  "struck_texts ops =
     concat (map (\<lambda>op. case op of
                          Text t x y os \<Rightarrow> if Strike True \<in> set os then [t] else []
                        | _ \<Rightarrow> []) ops)"

text \<open>Digits, a point and two digits: an amount written with exactly two decimals.\<close>

definition two_decimals :: "string \<Rightarrow> bool" where
  "two_decimals s =
     (case rev s of
        b # a # p # ds \<Rightarrow> is_digit b \<and> is_digit a \<and> p = CHR ''.'' \<and> ds \<noteq> [] \<and> list_all is_digit ds
      | _ \<Rightarrow> False)"

text \<open>
  The types of fields the extraction can work with: a value that is missing or
  \<^verbatim>\<open>null\<close>, a string, a list; a primitive value is anything but a list and an object.
\<close>

definition absent :: "jsval \<Rightarrow> bool" where
  "absent v = (v = Undefined \<or> v = JNull)"

fun is_text :: "jsval \<Rightarrow> bool" where
  "is_text (JStr s) = True"
| "is_text v = False"

fun is_list :: "jsval \<Rightarrow> bool" where
  "is_list (JArr xs) = True"
| "is_list v = False"

fun primitive :: "jsval \<Rightarrow> bool" where
  "primitive (JArr xs) = False"
| "primitive (JObj kvs) = False"
| "primitive v = True"

definition plain_record :: "jsval \<Rightarrow> bool" where
  "plain_record product =
     (\<not> absent product
      \<and> (absent (field product ''tags'') \<or> is_text (field product ''tags'')
           \<or> is_list (field product ''tags''))
      \<and> (absent (field product ''sku'') \<or> is_text (field product ''sku''))
      \<and> (absent (field product ''Variant SKU'') \<or> is_text (field product ''Variant SKU''))
      \<and> primitive (field product ''price'') \<and> primitive (field product ''Variant Price'')
      \<and> primitive (field product ''compare_at_price'')
      \<and> primitive (field product ''Variant Compare At Price'')
      \<and> (absent (field product ''body_html'') \<or> is_text (field product ''body_html''))
      \<and> (absent (field product ''Body (HTML)'') \<or> is_text (field product ''Body (HTML)'')))"

text \<open>The regular expression \<open>r\<close> matches at no position of \<open>pre\<close> in the text \<open>pre @ s\<close>.\<close>

fun no_match_before :: "rx \<Rightarrow> string \<Rightarrow> string \<Rightarrow> bool" where
  "no_match_before r [] s = True"
| "no_match_before r (c # cs) s = (rx_at r (c # cs @ s) = None \<and> no_match_before r cs s)"

text \<open>A regular expression with a capture group that every match goes through.\<close>

fun captures :: "rx \<Rightarrow> bool" where
  "captures (Grp a) = True"
| "captures (Seq a b) = (captures a \<or> captures b)"
| "captures r = False"

section \<open>Inputs to run the definitions on\<close>

text \<open>
  A request with three products, the second with numeric tags, and a PDF library that
  answers every document with the same buffer.
\<close>

definition good_a :: jsval where
  "good_a = JObj [(''sku'', JStr ''A'')]"

definition bad_tags :: jsval where
  "bad_tags = JObj [(''sku'', JStr ''X''), (''tags'', JNum (Fin 5))]"

definition good_b :: jsval where
  "good_b = JObj [(''sku'', JStr ''B'')]"

definition demo_body :: jsval where
  "demo_body = JObj [(''products'', JArr [good_a, bad_tags, good_b])]"

definition unit_pdf :: "draw_op list \<Rightarrow> unit option" where
  "unit_pdf ops = Some ()"

text \<open>A request with one product, whose \<^verbatim>\<open>sku\<close> has a slash.\<close>

definition slash_sku :: jsval where
  "slash_sku = JObj [(''sku'', JStr ''a/b'')]"

definition slash_body :: jsval where
  "slash_body = JObj [(''products'', JArr [slash_sku])]"

text \<open>A request with three products: a plain one, one with numeric tags, and that one.\<close>

definition mixed_body :: jsval where
  "mixed_body = JObj [(''products'', JArr [good_a, bad_tags, slash_sku])]"

text \<open>
  A record whose \<^verbatim>\<open>sku\<close> does not end with \<^verbatim>\<open>-R\<close> and whose \<^verbatim>\<open>Variant SKU\<close> does; records with
  prices; a record with only the key \<^verbatim>\<open>Variant SKU\<close>; a record with only the tag \<^verbatim>\<open>Recon\<close>.
\<close>

definition recon_by_variant :: jsval where
  "recon_by_variant = JObj [(''sku'', JStr ''ABC''), (''Variant SKU'', JStr ''XYZ-R'')]"

definition infinite_msrp :: jsval where
  "infinite_msrp = JObj [(''price'', JStr ''10''), (''compare_at_price'', JStr ''Infinity'')]"

definition with_msrp :: jsval where
  "with_msrp = JObj [(''price'', JStr ''19.99''), (''compare_at_price'', JNum (Fin 25))]"

definition only_variant_sku :: jsval where
  "only_variant_sku = JObj [(''Variant SKU'', JStr ''ABC'')]"

definition anonymous_recon :: jsval where
  "anonymous_recon = JObj [(''tags'', JStr ''Recon'')]"


section \<open>Facts about the builtins\<close>

lemma num_gt_NaN_right [simp]: "num_gt a NaN = False"
  by (cases a) simp_all

text \<open>Rules to run the definitions on numerals.\<close>

lemma digits_of_numeral:
  "digits_of (numeral k) =
     (if numeral k < (10::nat) then [digit_char (numeral k)]
      else digits_of (numeral k div 10) @ [digit_char (numeral k mod 10)])"
  by (rule digits_of.simps)

lemma digits_of_small: "digits_of 0 = ''0''" "digits_of 1 = ''1''" "digits_of (Suc 0) = ''1''"
  by (simp_all add: digits_of.simps digit_char_def)

lemma floor_rat_numeral: "\<lfloor>(numeral a :: rat) / numeral b\<rfloor> = numeral a div numeral b"
  by (metis floor_divide_of_int_eq of_int_numeral)

lemmas eval_defs =
  recon_flag_def amount_def text_or_def includes_of_def lor_def parseFloat_def parseFloat_str_def
  strip_sign_def is_ws_def is_digit_def num_to_string_def is_int_def digits_of_numeral
  digits_of_small floor_rat_numeral digit_char_def digits_val_def exponent_part_def
  scale10_def rx_at_def includes_re_def seqs_def ci_def lit_def draw_includes_def size_or_def
  parseInt_def parseInt_str_def num_min_def toFixed_def Let_def

lemma to_string_falsy: "\<not> truthy v \<Longrightarrow> \<exists>s. to_string E v = Some s"
  by (cases v) auto

section \<open>Facts about the loop\<close>

lemma logs_sku:
  "logs E product \<Longrightarrow> \<exists>k s. get_prop product ''sku'' = Some k \<and> to_string E k = Some s"
  using to_string_falsy
  by (fastforce simp: logs_def lor_def split: option.splits if_splits bind_splits)

lemma logs_filename: "logs E product \<Longrightarrow> \<exists>n. filename_of E i product = Some n"
  by (auto simp: logs_def lor_def filename_of_def split: option.splits if_splits bind_splits)

text \<open>A round of the loop throws only at line 42; the inner \<^verbatim>\<open>catch\<close> never throws.\<close>

lemma process_product_eq:
  "process_product pdfkit E options i product z =
     (if logs E product
      then Some (case rendered pdfkit E options i product of None \<Rightarrow> z | Some e \<Rightarrow> z @ [e])
      else None)"
proof (cases "logs E product")
  case False
  then show ?thesis
    by (auto simp: process_product_def logs_def split: bind_splits)
next
  case True
  from logs_sku [OF True] obtain k s
    where k: "get_prop product ''sku'' = Some k" "to_string E k = Some s"
    by blast
  from True obtain v t
    where v: "lor (get_prop product ''sku'') (get_prop product ''handle'') = Some v"
      "to_string E v = Some t"
    by (auto simp: logs_def split: bind_splits)
  show ?thesis
    using True k v
    by (auto simp: process_product_def rendered_def zip_file_def split: bind_splits option.splits)
qed

lemma process_from_None:
  "process_from pdfkit E options i ps z = None \<longleftrightarrow> \<not> list_all (logs E) ps"
  by (induction ps arbitrary: i z) (auto simp: process_product_eq)

text \<open>
  What the loop added to the archive: the entries of the products \<open>js\<close> whose inner
  \<^verbatim>\<open>try\<close> did not throw, in the order of the input.
\<close>

lemma process_from_Some:
  assumes "process_from pdfkit E options i ps z = Some z'"
  shows "\<exists>js zs. z' = z @ zs \<and> sorted_wrt (<) js \<and> (\<forall>j\<in>set js. i \<le> j \<and> j < i + length ps)
           \<and> map Some zs = map (\<lambda>j. rendered pdfkit E options j (ps ! (j - i))) js
           \<and> (\<forall>j. i \<le> j \<and> j < i + length ps \<and> j \<notin> set js
                 \<longrightarrow> rendered pdfkit E options j (ps ! (j - i)) = None)"
  using assms
proof (induction ps arbitrary: i z)
  case Nil
  then have "z' = z @ []" by simp
  moreover have "sorted_wrt (<) ([] :: nat list)" by simp
  ultimately show ?case by force
next
  case (Cons p ps)
  let ?r = "rendered pdfkit E options"
  from Cons.prems have lg: "logs E p"
    by (auto simp: process_product_eq split: if_splits)
  define z1 where "z1 = (case ?r i p of None \<Rightarrow> z | Some e \<Rightarrow> z @ [e])"
  from Cons.prems lg have rest: "process_from pdfkit E options (i + 1) ps z1 = Some z'"
    by (simp add: process_product_eq z1_def)
  from Cons.IH [OF rest] obtain js zs where
    z': "z' = z1 @ zs" and srt: "sorted_wrt (<) js"
    and rng: "\<forall>j\<in>set js. i + 1 \<le> j \<and> j < i + 1 + length ps"
    and ent: "map Some zs = map (\<lambda>j. ?r j (ps ! (j - (i + 1)))) js"
    and non: "\<forall>j. i + 1 \<le> j \<and> j < i + 1 + length ps \<and> j \<notin> set js
                \<longrightarrow> ?r j (ps ! (j - (i + 1))) = None"
    by blast
  have idx: "(p # ps) ! (j - i) = ps ! (j - Suc i)" if "Suc i \<le> j" for j
  proof -
    from that have "j - i = Suc (j - Suc i)" by simp
    then show ?thesis by simp
  qed
  have "map (\<lambda>j. ?r j (ps ! (j - (i + 1)))) js = map (\<lambda>j. ?r j ((p # ps) ! (j - i))) js"
  proof (rule map_cong [OF refl])
    fix j assume "j \<in> set js"
    with rng have "Suc i \<le> j" by auto
    then show "?r j (ps ! (j - (i + 1))) = ?r j ((p # ps) ! (j - i))"
      by (simp add: idx)
  qed
  with ent have ent': "map Some zs = map (\<lambda>j. ?r j ((p # ps) ! (j - i))) js"
    by simp
  show ?case
  proof (cases "?r i p")
    case None
    have "z' = z @ zs" using z' None by (simp add: z1_def)
    moreover have "\<forall>j\<in>set js. i \<le> j \<and> j < i + length (p # ps)"
      using rng by auto
    moreover have "\<forall>j. i \<le> j \<and> j < i + length (p # ps) \<and> j \<notin> set js
        \<longrightarrow> ?r j ((p # ps) ! (j - i)) = None"
    proof (intro allI impI)
      fix j assume j: "i \<le> j \<and> j < i + length (p # ps) \<and> j \<notin> set js"
      show "?r j ((p # ps) ! (j - i)) = None"
      proof (cases "j = i")
        case True
        then show ?thesis using None by simp
      next
        case False
        with j have "Suc i \<le> j" by simp
        with j non show ?thesis by (simp add: idx)
      qed
    qed
    ultimately show ?thesis using srt ent' by blast
  next
    case (Some e)
    have "z' = z @ (e # zs)" using z' Some by (simp add: z1_def)
    moreover have "sorted_wrt (<) (i # js)" using srt rng by auto
    moreover have "\<forall>j\<in>set (i # js). i \<le> j \<and> j < i + length (p # ps)"
      using rng by auto
    moreover have "map Some (e # zs) = map (\<lambda>j. ?r j ((p # ps) ! (j - i))) (i # js)"
      using ent' Some by simp
    moreover have "\<forall>j. i \<le> j \<and> j < i + length (p # ps) \<and> j \<notin> set (i # js)
        \<longrightarrow> ?r j ((p # ps) ! (j - i)) = None"
    proof (intro allI impI)
      fix j assume j: "i \<le> j \<and> j < i + length (p # ps) \<and> j \<notin> set (i # js)"
      then have "Suc i \<le> j" by auto
      with j non show "?r j ((p # ps) ! (j - i)) = None" by (simp add: idx)
    qed
    ultimately show ?thesis by blast
  qed
qed

section \<open>Facts about the archive\<close>

lemma put_entry_set: "set (put_entry k v es) \<subseteq> insert (k, v) (set es)"
  by (induction es) auto

lemma put_entry_names: "fst ` set (put_entry k v es) = insert k (fst ` set es)"
  by (induction es) auto

lemma file_entries_set: "((n, b) \<in> set (file_entries es)) = ((n, Some b) \<in> set es)"
  by (induction es rule: file_entries.induct) auto

lemma folder_names_set: "(n \<in> set (folder_names es)) = ((n, None) \<in> set es)"
  by (induction es rule: folder_names.induct) auto

lemma put_folder_files: "length (file_entries (put_entry k None es)) \<le> length (file_entries es)"
  by (induction es rule: file_entries.induct) auto

lemma put_file_files:
  "length (file_entries (put_entry k (Some v) es)) \<le> Suc (length (file_entries es))"
  by (induction es rule: file_entries.induct) auto

lemma startsWith_iff: "startsWith p s = (\<exists>r. s = p @ r)"
  by (induction p s rule: startsWith.induct) auto

lemma startsWith_append: "startsWith p (p @ s)"
  by (simp add: startsWith_iff)

lemma startsWith_trans: "startsWith p q \<Longrightarrow> startsWith q s \<Longrightarrow> startsWith p s"
  by (auto simp: startsWith_iff)

text \<open>The folder above a path, with its slash, is the beginning of the path.\<close>

lemma parentFolder_slash: "parentFolder (forceTrailingSlash name) = parentFolder name"
  by (simp add: parentFolder_def forceTrailingSlash_def)

lemma parentFolder_prefix:
  assumes "parentFolder name \<noteq> []"
  shows "startsWith (forceTrailingSlash (parentFolder name)) name"
proof -
  define p where "p = (if name \<noteq> [] \<and> last name = CHR ''/'' then butlast name else name)"
  let ?t = "takeWhile (\<lambda>c. c \<noteq> CHR ''/'') (rev p)"
  from assms obtain c r where d: "dropWhile (\<lambda>c. c \<noteq> CHR ''/'') (rev p) = c # r"
    and par: "parentFolder name = rev r"
    by (auto simp: parentFolder_def p_def split: list.splits)
  from d have "dropWhile (\<lambda>c. c \<noteq> CHR ''/'') (rev p) \<noteq> []" by simp
  from hd_dropWhile [OF this] d have c: "c = CHR ''/''" by simp
  have "rev p = ?t @ dropWhile (\<lambda>c. c \<noteq> CHR ''/'') (rev p)" by simp
  with d c have "rev p = ?t @ CHR ''/'' # r" by simp
  then have "rev (rev p) = rev (?t @ CHR ''/'' # r)" by simp
  then have q: "p = rev r @ CHR ''/'' # rev ?t" by simp
  have "\<exists>u. name = p @ u"
  proof (cases "name \<noteq> [] \<and> last name = CHR ''/''")
    case True
    then have ne: "name \<noteq> []" by simp
    from True have "p = butlast name" unfolding p_def by (rule if_P)
    with append_butlast_last_id [OF ne] have "name = p @ [last name]" by simp
    then show ?thesis ..
  next
    case False
    then have "p = name" unfolding p_def by (rule if_not_P)
    then have "name = p @ []" by simp
    then show ?thesis ..
  qed
  then obtain u where u: "name = p @ u" ..
  have "\<exists>w. rev r @ ''/'' = forceTrailingSlash (rev r) @ w"
  proof (cases "rev r \<noteq> [] \<and> last (rev r) = CHR ''/''")
    case True
    then have "forceTrailingSlash (rev r) = rev r" unfolding forceTrailingSlash_def by (rule if_P)
    then have "rev r @ ''/'' = forceTrailingSlash (rev r) @ ''/''" by simp
    then show ?thesis ..
  next
    case False
    then have "forceTrailingSlash (rev r) = rev r @ ''/''" unfolding forceTrailingSlash_def by (rule if_not_P)
    then have "rev r @ ''/'' = forceTrailingSlash (rev r) @ []" by simp
    then show ?thesis ..
  qed
  then obtain w where w: "rev r @ ''/'' = forceTrailingSlash (rev r) @ w" ..
  from q u have "name = (rev r @ ''/'') @ rev ?t @ u" by simp
  with w have "name = forceTrailingSlash (rev r) @ (w @ rev ?t @ u)" by simp
  then have "startsWith (forceTrailingSlash (rev r)) name"
    by (subst startsWith_iff) (rule exI)
  then show ?thesis by (simp only: par)
qed

text \<open>
  \<^verbatim>\<open>folderAdd\<close> keeps the entries there are, and adds folder entries only, whose names are
  beginnings of the name of the folder.
\<close>

lemma folderAdd_names: "k \<in> fst ` set files \<Longrightarrow> k \<in> fst ` set (folderAdd name files)"
proof (induction name files rule: folderAdd.induct)
  case (1 name files)
  then show ?case
    by (subst folderAdd.simps) (simp add: put_entry_names)
qed

lemma folderAdd_set:
  "e \<in> set (folderAdd name files) \<Longrightarrow>
     e \<in> set files \<or> snd e = None \<and> startsWith (fst e) (forceTrailingSlash name)"
proof (induction name files rule: folderAdd.induct)
  case (1 name files)
  let ?n = "forceTrailingSlash name"
  show ?case
  proof (cases "?n \<in> set (map fst files)")
    case True
    with 1(2) show ?thesis by (subst (asm) folderAdd.simps) simp
  next
    case False
    show ?thesis
    proof (cases "parentFolder ?n = []")
      case True
      with False 1(2) have "e \<in> set (put_entry ?n None files)"
        by (subst (asm) folderAdd.simps) simp
      with put_entry_set [of ?n None files] have "e = (?n, None) \<or> e \<in> set files" by auto
      then show ?thesis using startsWith_append [of ?n "[]"] by auto
    next
      case nonempty: False
      with False 1(2) have "e \<in> set (put_entry ?n None (folderAdd (parentFolder ?n) files))"
        by (subst (asm) folderAdd.simps) simp
      with put_entry_set [of ?n None "folderAdd (parentFolder ?n) files"]
      have "e = (?n, None) \<or> e \<in> set (folderAdd (parentFolder ?n) files)" by auto
      then show ?thesis
      proof
        assume "e = (?n, None)"
        then show ?thesis using startsWith_append [of ?n "[]"] by auto
      next
        assume "e \<in> set (folderAdd (parentFolder ?n) files)"
        from 1(1) [OF False nonempty this]
        have "e \<in> set files \<or> snd e = None \<and> startsWith (fst e) (forceTrailingSlash (parentFolder ?n))" .
        with parentFolder_prefix [OF nonempty] show ?thesis
          by (auto intro: startsWith_trans)
      qed
    qed
  qed
qed

lemma folderAdd_files: "length (file_entries (folderAdd name files)) \<le> length (file_entries files)"
proof (induction name files rule: folderAdd.induct)
  case (1 name files)
  let ?n = "forceTrailingSlash name"
  show ?case
  proof (cases "?n \<in> set (map fst files)")
    case True
    then show ?thesis by (subst folderAdd.simps) simp
  next
    case False
    show ?thesis
    proof (cases "parentFolder ?n = []")
      case True
      with False show ?thesis using put_folder_files [of ?n files]
        by (subst folderAdd.simps) simp
    next
      case nonempty: False
      from 1 [OF False nonempty] put_folder_files [of ?n "folderAdd (parentFolder ?n) files"]
      have "length (file_entries (put_entry ?n None (folderAdd (parentFolder ?n) files)))
              \<le> length (file_entries files)"
        by simp
      with False nonempty show ?thesis
        by (subst folderAdd.simps) simp
    qed
  qed
qed

text \<open>The same for \<^verbatim>\<open>fileAdd\<close>, which sets the entry of the file as well.\<close>

lemma fileAdd_names: "k = name \<or> k \<in> fst ` set files \<Longrightarrow> k \<in> fst ` set (fileAdd name data files)"
  using folderAdd_names [of k files "parentFolder name"]
  by (auto simp: fileAdd_def put_entry_names)

lemma fileAdd_set:
  assumes "e \<in> set (fileAdd name data files)"
  shows "e = (name, Some data) \<or> e \<in> set files \<or> snd e = None \<and> startsWith (fst e) name"
proof (cases "parentFolder name = []")
  case True
  with assms put_entry_set [of name "Some data" files] show ?thesis
    by (auto simp: fileAdd_def)
next
  case False
  with assms put_entry_set [of name "Some data" "folderAdd (parentFolder name) files"]
  have "e = (name, Some data) \<or> e \<in> set (folderAdd (parentFolder name) files)"
    by (auto simp: fileAdd_def)
  with folderAdd_set [of e "parentFolder name" files] parentFolder_prefix [OF False]
  show ?thesis by (auto intro: startsWith_trans)
qed

lemma fileAdd_files:
  "length (file_entries (fileAdd name data files)) \<le> Suc (length (file_entries files))"
proof (cases "parentFolder name = []")
  case True
  then show ?thesis using put_file_files [of name data files] by (simp add: fileAdd_def)
next
  case False
  then show ?thesis
    using put_file_files [of name data "folderAdd (parentFolder name) files"]
      folderAdd_files [of "parentFolder name" files]
    by (simp add: fileAdd_def)
qed

lemma zip_entries_snoc: "zip_entries (z @ [(k, v)]) = fileAdd k v (zip_entries z)"
  by (simp add: zip_entries_def)

text \<open>
  The entries of the archive: every call has an entry of its name; a file entry was put
  by a call; the name of a folder entry is the beginning of the name of a call; there
  are no more file entries than calls.
\<close>

lemma zip_entries_names: "k \<in> fst ` set z \<Longrightarrow> k \<in> fst ` set (zip_entries z)"
proof (induction z rule: rev_induct)
  case Nil
  then show ?case by simp
next
  case (snoc e z)
  obtain n v where e: "e = (n, v)" by (cases e)
  from snoc.prems have "k = n \<or> k \<in> fst ` set z" by (auto simp: e)
  with snoc.IH have "k = n \<or> k \<in> fst ` set (zip_entries z)" by blast
  from fileAdd_names [OF this] show ?case by (simp add: e zip_entries_snoc)
qed

lemma zip_entries_set:
  "e \<in> set (zip_entries z) \<Longrightarrow>
     (\<exists>b. snd e = Some b \<and> (fst e, b) \<in> set z)
     \<or> snd e = None \<and> (\<exists>c\<in>set z. startsWith (fst e) (fst c))"
proof (induction z arbitrary: e rule: rev_induct)
  case Nil
  then show ?case by (simp add: zip_entries_def)
next
  case (snoc c z)
  obtain n v where c: "c = (n, v)" by (cases c)
  from snoc.prems have "e \<in> set (fileAdd n v (zip_entries z))" by (simp add: c zip_entries_snoc)
  from fileAdd_set [OF this]
  have "e = (n, Some v) \<or> e \<in> set (zip_entries z) \<or> snd e = None \<and> startsWith (fst e) n" .
  then show ?case
  proof (elim disjE conjE)
    assume "e = (n, Some v)"
    then show ?thesis by (simp add: c)
  next
    assume "e \<in> set (zip_entries z)"
    from snoc.IH [OF this] show ?thesis by auto
  next
    assume "snd e = None" "startsWith (fst e) n"
    then show ?thesis by (auto simp: c)
  qed
qed

lemma zip_entries_files: "set (file_entries (zip_entries z)) \<subseteq> set z"
proof
  fix x assume "x \<in> set (file_entries (zip_entries z))"
  then have "(fst x, Some (snd x)) \<in> set (zip_entries z)"
    using file_entries_set [of "fst x" "snd x" "zip_entries z"] by simp
  from zip_entries_set [OF this] show "x \<in> set z" by simp
qed

lemma zip_entries_folders:
  "n \<in> set (folder_names (zip_entries z)) \<Longrightarrow> \<exists>c\<in>set z. startsWith n (fst c)"
  using zip_entries_set [of "(n, None)" z] by (simp add: folder_names_set)

lemma zip_entries_length: "length (file_entries (zip_entries z)) \<le> length z"
proof (induction z rule: rev_induct)
  case Nil
  show ?case by (simp add: zip_entries_def)
next
  case (snoc e z)
  obtain k v where e: "e = (k, v)" by (cases e)
  show ?case using snoc fileAdd_files [of k v "zip_entries z"]
    by (simp add: e zip_entries_snoc)
qed

lemma sorted_indices_length:
  assumes "sorted_wrt (<) js" and "\<forall>j\<in>set js. j < (n::nat)"
  shows "length js \<le> n"
proof -
  from assms(1) have "distinct js" by (simp add: strict_sorted_iff)
  then have "length js = card (set js)" by (simp add: distinct_card)
  also have "\<dots> \<le> card {..<n}" using assms(2) by (intro card_mono) auto
  finally show ?thesis by simp
qed

lemma handler_Archive:
  assumes "handler pdfkit zipgen E body = Archive bytes"
  shows "\<exists>ps opts z. get_prop body ''products'' = Some (JArr ps)
           \<and> get_prop body ''options'' = Some opts
           \<and> process_from pdfkit E (default_options opts) 0 ps [] = Some z
           \<and> zipgen z = Some bytes"
  using assms
  by (auto simp: handler_def split: option.splits jsval.splits bind_splits)

lemmas run_defs = handler_def default_options_def process_product_def generateHangTagPDF_def
  extract_fields_def draw_def draw_msrp_def draw_recon_def filename_of_def zip_file_def logs_def

lemma demo_handler:
  "handler unit_pdf Some exact_engine demo_body = Archive [(''A-hangtag.pdf'', ()), (''B-hangtag.pdf'', ())]"
  by (simp add: run_defs eval_defs demo_body_def good_a_def good_b_def bad_tags_def unit_pdf_def exact_engine_def)

lemma demo_bad: "logs exact_engine bad_tags \<and> generateHangTagPDF unit_pdf exact_engine bad_tags (JObj []) = None"
  by (simp add: run_defs eval_defs bad_tags_def)

lemma mixed_handler:
  "handler unit_pdf Some exact_engine mixed_body
     = Archive [(''A-hangtag.pdf'', ()), (''a/b-hangtag.pdf'', ())]"
  by (simp add: run_defs eval_defs mixed_body_def good_a_def slash_sku_def bad_tags_def unit_pdf_def
        exact_engine_def)

lemmas zip_defs = zip_entries_def fileAdd_def folderAdd.simps parentFolder_def forceTrailingSlash_def

lemma mixed_entries:
  "zip_entries [(''A-hangtag.pdf'', ()), (''a/b-hangtag.pdf'', ())]
     = [(''A-hangtag.pdf'', Some ()), (''a/'', None), (''a/b-hangtag.pdf'', Some ())]"
  by (simp add: zip_defs)
section \<open>Facts about the document\<close>

lemma draw_items_ops:
  "op \<in> set (fst (draw_items E items y)) \<Longrightarrow> \<exists>s y'. op = Text (JStr s) (Fin 12) y' [Width 170]"
  by (induction items arbitrary: y) (auto simp: case_prod_unfold Let_def)

lemma draw_includes_ops:
  assumes "op \<in> set (fst (draw_includes E t))"
  shows "(\<exists>s y os. op = Text (JStr s) (Fin 12) y os \<and> Strike True \<notin> set os)
         \<or> (\<exists>n. op = FontSize n) \<or> (\<exists>n. op = Font n) \<or> (\<exists>c. op = FillColor c)"
proof (cases "t = []")
  case True
  with assms show ?thesis by (simp add: draw_includes_def)
next
  case False
  obtain ops y where d: "draw_items E (includeItems t) (num_add E (Fin 175) (Fin 12)) = (ops, y)"
    by (cases "draw_items E (includeItems t) (num_add E (Fin 175) (Fin 12))")
  with assms False have "op \<in> set [FontSize (Fin 8), Font ''Helvetica-Bold-Oblique'', FillColor ''black'',
              Text (JStr ''INCLUDES:'') (Fin 12) (Fin 175) [], FontSize (Fin 7), Font ''Helvetica''] \<or> op \<in> set ops"
    by (auto simp: draw_includes_def)
  then show ?thesis
  proof
    assume "op \<in> set ops"
    with d have "op \<in> set (fst (draw_items E (includeItems t) (num_add E (Fin 175) (Fin 12))))" by simp
    from draw_items_ops [OF this] show ?thesis by auto
  qed auto
qed

lemma struck_texts_append [simp]: "struck_texts (a @ b) = struck_texts a @ struck_texts b"
  by (simp add: struck_texts_def)

lemma struck_texts_includes [simp]: "struck_texts (fst (draw_includes E t)) = []"
proof -
  have "(case op of Text t x y os \<Rightarrow> if Strike True \<in> set os then [t] else [] | _ \<Rightarrow> []) = []"
    if "op \<in> set (fst (draw_includes E t))" for op
    using draw_includes_ops [OF that] by auto
  then show ?thesis
    by (simp add: struck_texts_def)
qed

text \<open>The calls of a document, section by section.\<close>

lemma draw_sections:
  assumes "draw E f options = Some ops"
  shows "\<exists>v s n m y y'. vendor f = JStr v \<and> to_string E (sku f) = Some s \<and> ops =
     [NewDocument (972 / 5) (1314 / 5) 8,
          Rect 8 15 60 20, FillAndStroke ''#e53e3e'' ''#e53e3e'',
          FontSize (Fin 8), Font ''Helvetica-Bold'', FillColor ''white'',
          Text (JStr (upper E v)) (Fin 12) (Fin 22) [Width 52, Align ''center''],
          FontSize (Fin 10), FillColor ''black'', Font ''Helvetica-Bold'',
          Text (JStr (''Model '' @ s)) (Fin 100) (Fin 20) [Width 86, Align ''right''],
          FontSize n, Font ''Helvetica-Bold'', FillColor ''black'',
          Text (title f) (Fin 12) (Fin 45) [Width 170, Align ''center'', LineGap 1],
          Rect 25 85 144 80, Stroke ''#cccccc'',
          FontSize (Fin 8), FillColor ''#999999'',
          Text (JStr ''Product Image'') (Fin 25) (num_add E (Fin 85) (Fin 36))
            [Width 144, Align ''center'']]
         @ fst (draw_includes E (includesText f))
         @ [FontSize m, Font ''Helvetica-Bold'', FillColor ''black'',
            Text (JStr (''$'' @ toFixed E 2 (price f))) (Fin 30) y [Width 134, Align ''center'']]
         @ draw_msrp E f y'
         @ draw_recon f
         @ [DocEnd]"
  using assms
  by (auto simp: draw_def Let_def split: bind_splits prod.splits jsval.splits)


lemma get_prop_field: "\<not> absent product \<Longrightarrow> get_prop product k = Some (field product k)"
  by (cases product) (auto simp: absent_def field_def split: option.splits)

lemma extract_fieldsD:
  assumes "extract_fields E product = Some f"
  shows "\<not> absent product" and "recon_flag product = Some (isRecon f)"
    and "amount E product ''price'' ''Variant Price'' = Some (price f)"
    and "amount E product ''compare_at_price'' ''Variant Compare At Price'' = Some (comparePrice f)"
    and "text_or product ''sku'' ''Variant SKU'' [] = Some (sku f)"
    and "\<exists>b. text_or product ''body_html'' ''Body (HTML)'' [] = Some b \<and> includes_of b = Some (includesText f)"
proof -
  show "\<not> absent product"
    using assms by (cases product) (auto simp: extract_fields_def recon_flag_def lor_def absent_def)
qed (use assms in \<open>auto simp: extract_fields_def split: bind_splits\<close>)

lemma recon_flag_iff:
  assumes "recon_flag product = Some r"
  shows "truthy r = (contains_tag (field product ''tags'') ''Recon''
                    \<or> contains_tag (field product ''tags'') ''recon''
                    \<or> ends_in (field product ''sku'') ''-R''
                    \<or> ends_in (field product ''Variant SKU'') ''-R'')"
proof -
  have na: "\<not> absent product"
    using assms by (cases product) (auto simp: recon_flag_def lor_def absent_def)
  note g = get_prop_field [OF na]
  show ?thesis
  proof (cases "field product ''tags''")
    case (JStr s)
    then show ?thesis using assms
      by (cases "field product ''sku''"; cases "field product ''Variant SKU''")
         (auto simp: recon_flag_def lor_def g contains_tag_def ends_in_def split: if_splits)
  next
    case (JArr xs)
    then show ?thesis using assms
      by (cases "field product ''sku''"; cases "field product ''Variant SKU''")
         (auto simp: recon_flag_def lor_def g contains_tag_def ends_in_def split: if_splits)
  next
    case Undefined
    then show ?thesis using assms
      by (cases "field product ''sku''"; cases "field product ''Variant SKU''")
         (auto simp: recon_flag_def lor_def g contains_tag_def ends_in_def split: if_splits)
  next
    case JNull
    then show ?thesis using assms
      by (cases "field product ''sku''"; cases "field product ''Variant SKU''")
         (auto simp: recon_flag_def lor_def g contains_tag_def ends_in_def split: if_splits)
  qed (use assms in \<open>auto simp: recon_flag_def lor_def g\<close>)
qed

lemma banner_ops:
  assumes "draw E f options = Some ops"
  shows "(Text (JStr ''Factory Reconditioned Tool'') (Fin 8) (Fin 248) [] \<in> set ops) = truthy (isRecon f)"
    and "(Rect 0 240 (972 / 5) (114 / 5) \<in> set ops) = truthy (isRecon f)"
proof -
  from draw_sections [OF assms] obtain hd pr y' where
    ops: "ops = hd @ fst (draw_includes E (includesText f)) @ pr @ draw_msrp E f y' @ draw_recon f @ [DocEnd]"
    and hd: "Text (JStr ''Factory Reconditioned Tool'') (Fin 8) (Fin 248) [] \<notin> set hd"
      "Rect 0 240 (972 / 5) (114 / 5) \<notin> set hd"
    and pr: "Text (JStr ''Factory Reconditioned Tool'') (Fin 8) (Fin 248) [] \<notin> set pr"
      "Rect 0 240 (972 / 5) (114 / 5) \<notin> set pr"
    by fastforce
  have inc: "Text (JStr ''Factory Reconditioned Tool'') (Fin 8) (Fin 248) [] \<notin> set (fst (draw_includes E (includesText f)))"
    "Rect 0 240 (972 / 5) (114 / 5) \<notin> set (fst (draw_includes E (includesText f)))"
    using draw_includes_ops by fastforce+
  show "(Text (JStr ''Factory Reconditioned Tool'') (Fin 8) (Fin 248) [] \<in> set ops) = truthy (isRecon f)"
    using hd pr inc by (auto simp: ops draw_msrp_def draw_recon_def)
  show "(Rect 0 240 (972 / 5) (114 / 5) \<in> set ops) = truthy (isRecon f)"
    using hd pr inc by (auto simp: ops draw_msrp_def draw_recon_def)
qed

lemmas run2_defs = extract_fields_def draw_def draw_msrp_def draw_recon_def

lemma recon_by_variant_runs:
  "\<exists>f ops. extract_fields exact_engine recon_by_variant = Some f
      \<and> draw exact_engine f (JObj []) = Some ops"
  by (simp add: run2_defs eval_defs recon_by_variant_def exact_engine_def endsWith_def)

lemma digit_char_digit: "d < 10 \<Longrightarrow> is_digit (digit_char d)"
proof -
  assume "d < 10"
  then have "d = 0 \<or> d = 1 \<or> d = 2 \<or> d = 3 \<or> d = 4 \<or> d = 5 \<or> d = 6 \<or> d = 7 \<or> d = 8 \<or> d = 9"
    by arith
  then show ?thesis
    by (auto simp: digit_char_def is_digit_def)
qed

lemma digits_of_digits: "list_all is_digit (digits_of n) \<and> digits_of n \<noteq> []"
proof (induction n rule: digits_of.induct)
  case (1 n)
  show ?case
  proof (cases "n < 10")
    case True
    then show ?thesis by (simp add: digits_of.simps [of n] digit_char_digit)
  next
    case False
    with 1 show ?thesis by (simp add: digits_of.simps [of n] digit_char_digit)
  qed
qed

lemma two_decimals_split:
  assumes "list_all is_digit m" and "3 \<le> length m"
  shows "two_decimals (take (length m - 2) m @ ''.'' @ drop (length m - 2) m)"
proof -
  from assms(2) obtain ys b where ys: "m = ys @ [b]"
    by (cases m rule: rev_cases) auto
  with assms(2) obtain xs a where xa: "ys = xs @ [a]"
    by (cases ys rule: rev_cases) auto
  from ys xa assms(2) have m: "m = xs @ [a, b]" and xs: "xs \<noteq> []"
    by auto
  with assms(1) show ?thesis
    by (simp add: two_decimals_def)
qed

lemma toFixed_two_decimals:
  assumes "0 \<le> c" and "c < 10 ^ 21"
  shows "two_decimals (toFixed E 2 (Fin c))"
proof -
  define d where "d = digits_of (nat \<lfloor>c * 10\<^sup>2 + 1 / 2\<rfloor>)"
  define m where "m = (if length d \<le> 2 then replicate (3 - length d) CHR ''0'' @ d else d)"
  have dd: "list_all is_digit d" "d \<noteq> []"
    using digits_of_digits by (simp_all add: d_def)
  have z: "is_digit CHR ''0''" by (simp add: is_digit_def)
  have "list_all is_digit m" using dd z by (simp add: m_def list_all_iff)
  moreover have "3 \<le> length m" using dd by (auto simp: m_def)
  ultimately have "two_decimals (take (length m - 2) m @ ''.'' @ drop (length m - 2) m)"
    by (rule two_decimals_split)
  moreover have "toFixed E 2 (Fin c) = take (length m - 2) m @ ''.'' @ drop (length m - 2) m"
    using assms by (simp add: toFixed_def Let_def m_def d_def)
  ultimately show ?thesis by simp
qed

lemma struck_texts_Nil [simp]: "struck_texts [] = []"
  by (simp add: struck_texts_def)

lemma struck_texts_Cons [simp]:
  "struck_texts (op # ops) =
     (case op of Text t x y os \<Rightarrow> if Strike True \<in> set os then [t] else [] | _ \<Rightarrow> [])
     @ struck_texts ops"
  by (simp add: struck_texts_def)

lemma struck_recon [simp]: "struck_texts (draw_recon f) = []"
  by (simp add: draw_recon_def)

lemma struck_msrp [simp]:
  "struck_texts (draw_msrp E f y) =
     (if num_gt (comparePrice f) (price f) \<and> num_gt (comparePrice f) (Fin 0)
      then [JStr (''MSRP $'' @ toFixed E 2 (comparePrice f))] else [])"
  by (simp add: draw_msrp_def)

lemma with_msrp_runs:
  "\<exists>f ops. extract_fields exact_engine with_msrp = Some f \<and> draw exact_engine f (JObj []) = Some ops
     \<and> price f = Fin (1999 / 100) \<and> comparePrice f = Fin 25"
  by (simp add: run2_defs eval_defs with_msrp_def exact_engine_def)

lemma text_or_falsy:
  assumes "\<not> absent product" and "\<not> truthy (field product k1)" and "\<not> truthy (field product k2)"
  shows "text_or product k1 k2 d = Some (JStr d)"
  using assms by (simp add: text_or_def lor_def get_prop_field)

lemma anonymous_recon_runs:
  "\<exists>f ops. extract_fields exact_engine anonymous_recon = Some f
     \<and> draw exact_engine f (JObj []) = Some ops \<and> truthy (isRecon f)"
  by (simp add: run2_defs eval_defs anonymous_recon_def exact_engine_def)

section \<open>Facts about the regular expressions\<close>

lemma rx_run_keeps: "(s', g') \<in> set (rx_run r (s, g)) \<Longrightarrow> g \<noteq> None \<Longrightarrow> g' \<noteq> None"
proof (induction r arbitrary: s g s' g')
  case (Chr P)
  then show ?case by (cases s) (auto split: if_splits)
next
  case (Seq a b)
  from Seq.prems(1) obtain s1 g1 where st: "(s1, g1) \<in> set (rx_run a (s, g))"
    and m: "(s', g') \<in> set (rx_run b (s1, g1))"
    by auto
  from Seq.IH(1) [OF st Seq.prems(2)] have "g1 \<noteq> None" .
  with Seq.IH(2) [OF m] show ?case .
next
  case (Alt a b)
  from Alt.prems(1) have "(s', g') \<in> set (rx_run a (s, g)) \<or> (s', g') \<in> set (rx_run b (s, g))"
    by simp
  with Alt.IH Alt.prems(2) show ?case by blast
next
  case (Opt a)
  from Opt.prems(1) have "(s', g') \<in> set (rx_run a (s, g)) \<or> (s', g') = (s, g)"
    by auto
  with Opt.IH Opt.prems(2) show ?case by blast
next
  case (Grp a)
  then show ?case by auto
next
  case Eos
  then show ?case by (auto split: if_splits)
qed auto

lemma rx_run_captures:
  "captures r \<Longrightarrow> (s', g') \<in> set (rx_run r (s, g)) \<Longrightarrow> g' \<noteq> None"
proof (induction r arbitrary: s g s' g')
  case (Seq a b)
  from Seq.prems(2) obtain s1 g1 where st: "(s1, g1) \<in> set (rx_run a (s, g))"
    and m: "(s', g') \<in> set (rx_run b (s1, g1))"
    by auto
  show ?case
  proof (cases "captures b")
    case True
    from Seq.IH(2) [OF True m] show ?thesis .
  next
    case False
    with Seq.prems(1) have "captures a" by simp
    from Seq.IH(1) [OF this st] have "g1 \<noteq> None" .
    with rx_run_keeps [OF m] show ?thesis .
  qed
next
  case (Grp a)
  then show ?case by auto
qed simp_all

lemma includes_re_captures: "(s', g') \<in> set (rx_run includes_re (s, g)) \<Longrightarrow> g' \<noteq> None"
  by (rule rx_run_captures [of includes_re]) (simp_all add: includes_re_def seqs_def)

lemma rx_at_includes: "rx_at includes_re s = Some m \<Longrightarrow> snd m \<noteq> None"
proof -
  assume "rx_at includes_re s = Some m"
  then have "m \<in> set (rx_run includes_re (s, None))"
    by (auto simp: rx_at_def split: list.splits)
  with includes_re_captures [of "fst m" "snd m" s None] show ?thesis by simp
qed

lemma rx_exec_includes: "rx_exec includes_re s \<noteq> Some None"
proof (induction s)
  case Nil
  show ?case using rx_at_includes [of "[]"]
    by (cases "rx_at includes_re []") auto
next
  case (Cons c cs)
  then show ?case using rx_at_includes [of "c # cs"]
    by (cases "rx_at includes_re (c # cs)") auto
qed

lemma star_run_hd: "\<exists>rest. star_run P s = dropWhile P s # rest"
  by (induction s) auto

lemma ascii_upper_cases:
  "ascii_upper c = CHR ''A'' \<longleftrightarrow> c = CHR ''a'' \<or> c = CHR ''A''"
  "ascii_upper c = CHR ''N'' \<longleftrightarrow> c = CHR ''n'' \<or> c = CHR ''N''"
  "ascii_upper c = CHR ''D'' \<longleftrightarrow> c = CHR ''d'' \<or> c = CHR ''D''"
  by (auto simp: ascii_upper_def split: if_splits)

lemma ascii_upper_and:
  "ascii_upper CHR ''a'' = CHR ''A''" "ascii_upper CHR ''n'' = CHR ''N''" "ascii_upper CHR ''d'' = CHR ''D''"
  by (simp_all add: ascii_upper_def)

lemma upper_letter_not_ws:
  "ascii_upper c = CHR ''A'' \<or> ascii_upper c = CHR ''N'' \<or> ascii_upper c = CHR ''D'' \<Longrightarrow> \<not> is_ws c"
  by (auto simp: is_ws_def ascii_upper_cases)

lemma upper_letter_not_sep:
  "ascii_upper c = CHR ''A'' \<or> ascii_upper c = CHR ''N'' \<or> ascii_upper c = CHR ''D''
     \<Longrightarrow> c \<noteq> CHR '','' \<and> c \<noteq> CHR '';''"
  by (auto simp: ascii_upper_cases)

text \<open>What the separator matches at the head of a text.\<close>

lemma rx_at_sep_punct:
  "c = CHR '','' \<or> c = CHR '';'' \<Longrightarrow> rx_at sep_re (c # cs) = Some (cs, None)"
  by (auto simp: rx_at_def sep_re_def seqs_def)

lemma rx_at_sep_and:
  assumes "ascii_upper x1 = CHR ''A''" "ascii_upper x2 = CHR ''N''" "ascii_upper x3 = CHR ''D''" "is_ws w"
  shows "rx_at sep_re (x1 # x2 # x3 # w # r) = Some (dropWhile is_ws r, None)"
proof -
  from star_run_hd obtain rest where "star_run is_ws r = dropWhile is_ws r # rest" by blast
  with assms upper_letter_not_sep [of x1] show ?thesis
    by (simp add: rx_at_def sep_re_def seqs_def ci_def ascii_upper_and)
qed

lemma rx_at_sep_short:
  assumes "c \<noteq> CHR '',''" "c \<noteq> CHR '';''" "length cs < 3"
  shows "rx_at sep_re (c # cs) = None"
proof -
  from assms(3) consider "cs = []" | c2 where "cs = [c2]" | c2 c3 where "cs = [c2, c3]"
    by (cases cs; cases "tl cs"; cases "tl (tl cs)") auto
  then show ?thesis
    using assms(1,2) by cases (simp_all add: rx_at_def sep_re_def seqs_def ci_def ascii_upper_and)
qed

lemma rx_at_sep_four:
  assumes "c \<noteq> CHR '',''" "c \<noteq> CHR '';''"
  shows "rx_at sep_re (c # c2 # c3 # w # r) =
     (if ascii_upper c = CHR ''A'' \<and> ascii_upper c2 = CHR ''N'' \<and> ascii_upper c3 = CHR ''D'' \<and> is_ws w
      then Some (dropWhile is_ws r, None) else None)"
proof (cases "ascii_upper c = CHR ''A'' \<and> ascii_upper c2 = CHR ''N'' \<and> ascii_upper c3 = CHR ''D'' \<and> is_ws w")
  case True
  then show ?thesis by (simp add: rx_at_sep_and)
next
  case False
  then show ?thesis using assms
    by (auto simp: rx_at_def sep_re_def seqs_def ci_def ascii_upper_and)
qed

lemma rx_at_sep_None_head:
  "rx_at sep_re (c # cs) = None \<Longrightarrow> c \<noteq> CHR '','' \<and> c \<noteq> CHR '';''"
  using rx_at_sep_punct [of c cs] by auto

text \<open>
  A text with no separator at its head has none there when three characters that are
  not white space follow it.
\<close>

lemma rx_at_sep_extend:
  assumes "rx_at sep_re (c # cs) = None" and "\<not> is_ws x1" "\<not> is_ws x2" "\<not> is_ws x3"
  shows "rx_at sep_re (c # cs @ x1 # x2 # x3 # u) = None"
proof -
  note h = rx_at_sep_None_head [OF assms(1)]
  consider "cs = []" | c2 where "cs = [c2]" | c2 c3 where "cs = [c2, c3]"
    | c2 c3 w r where "cs = c2 # c3 # w # r"
    by (cases cs; cases "tl cs"; cases "tl (tl cs)") auto
  then show ?thesis
  proof cases
    case 4
    with assms(1) h show ?thesis
      by (simp add: rx_at_sep_four split: if_splits)
  qed (use h assms in \<open>simp_all add: rx_at_sep_four\<close>)
qed

lemma no_match_before_sep_extend:
  assumes "no_match_before sep_re a []" and "\<not> is_ws x1" "\<not> is_ws x2" "\<not> is_ws x3"
  shows "no_match_before sep_re a (x1 # x2 # x3 # u)"
  using assms(1)
proof (induction a)
  case (Cons c cs)
  then show ?case using rx_at_sep_extend [OF _ assms(2,3,4), of c cs u] by simp
qed simp

lemma split_from_no_match:
  "no_match_before r a s \<Longrightarrow> split_from r piece (a @ s) = split_from r (piece @ a) s"
  by (induction a arbitrary: piece) auto

lemma split_from_unsplit: "no_match_before r a [] \<Longrightarrow> split_from r piece a = [piece @ a]"
  using split_from_no_match [of r a "[]" piece] by simp

lemma include_items_examples:
  "includeItems ''Band saw'' = [''B'', ''saw'']" "includeItems ''Hammer and'' = [''Hammer and'']"
  "includeItems ''Bolt, Case and Manual'' = [''Bolt'', ''Case'', ''Manual'']"
  by code_simp+
























section \<open>Facts about the extraction\<close>

lemma to_string_primitive: "primitive v \<Longrightarrow> \<exists>s. to_string E v = Some s"
  by (cases v) auto

lemma includes_of_text: "\<exists>t. includes_of (JStr s) = Some t"
  using rx_exec_includes [of s]
  by (cases "rx_exec includes_re s") (auto simp: includes_of_def split: option.splits)

lemma amount_plain:
  assumes "\<not> absent product" and "primitive (field product k1)" and "primitive (field product k2)"
  shows "\<exists>n. amount E product k1 k2 = Some n"
proof -
  have "\<exists>s. to_string E (JNum (Fin 0)) = Some s" by simp
  with to_string_primitive [OF assms(2), of E] to_string_primitive [OF assms(3), of E]
  show ?thesis
    by (auto simp: amount_def lor_def parseFloat_def get_prop_field [OF assms(1)])
qed

lemma text_or_total: "\<not> absent product \<Longrightarrow> \<exists>v. text_or product k1 k2 d = Some v"
  by (simp add: text_or_def lor_def get_prop_field)

lemma text_or_text:
  assumes "\<not> absent product" and "absent (field product k1) \<or> is_text (field product k1)"
    and "absent (field product k2) \<or> is_text (field product k2)"
  shows "\<exists>s. text_or product k1 k2 d = Some (JStr s)"
  using assms(2,3)
  by (cases "field product k1"; cases "field product k2")
     (auto simp: text_or_def lor_def get_prop_field [OF assms(1)] absent_def)

lemma recon_flag_plain:
  assumes "\<not> absent product"
    and "absent (field product ''tags'') \<or> is_text (field product ''tags'') \<or> is_list (field product ''tags'')"
    and "absent (field product ''sku'') \<or> is_text (field product ''sku'')"
    and "absent (field product ''Variant SKU'') \<or> is_text (field product ''Variant SKU'')"
  shows "\<exists>r. recon_flag product = Some r"
  using assms(2,3,4)
  by (cases "field product ''tags''"; cases "field product ''sku''"; cases "field product ''Variant SKU''")
     (auto simp: recon_flag_def lor_def get_prop_field [OF assms(1)] absent_def)

lemma extract_plain:
  assumes "plain_record product"
  shows "\<exists>f. extract_fields E product = Some f"
proof -
  from assms have na: "\<not> absent product" by (simp add: plain_record_def)
  from assms obtain r where r: "recon_flag product = Some r"
    using recon_flag_plain [of product] by (auto simp: plain_record_def)
  from assms obtain p where p: "amount E product ''price'' ''Variant Price'' = Some p"
    using amount_plain [OF na, of "''price''" "''Variant Price''"] by (auto simp: plain_record_def)
  from assms obtain c where c: "amount E product ''compare_at_price'' ''Variant Compare At Price'' = Some c"
    using amount_plain [OF na, of "''compare_at_price''" "''Variant Compare At Price''"]
    by (auto simp: plain_record_def)
  from text_or_total [OF na] obtain t where t: "text_or product ''title'' ''Title'' ''Product'' = Some t"
    by blast
  from text_or_total [OF na] obtain v where v: "text_or product ''vendor'' ''Vendor'' ''Brand'' = Some v"
    by blast
  from text_or_total [OF na] obtain k where k: "text_or product ''sku'' ''Variant SKU'' [] = Some k"
    by blast
  from assms obtain b where b: "text_or product ''body_html'' ''Body (HTML)'' [] = Some (JStr b)"
    using text_or_text [OF na, of "''body_html''" "''Body (HTML)''"] by (auto simp: plain_record_def)
  from includes_of_text obtain i where i: "includes_of (JStr b) = Some i"
    by blast
  show ?thesis
    by (simp add: extract_fields_def r p c t v k b i)
qed

lemma only_variant_sku_rendered:
  "rendered unit_pdf exact_engine (JObj []) 0 only_variant_sku = Some (''product-1-hangtag.pdf'', ())"
  by (simp add: rendered_def run_defs run2_defs eval_defs only_variant_sku_def unit_pdf_def exact_engine_def)



section \<open>The claims\<close>

text \<open>
  C1 (a product whose rendering throws is skipped): a round of the loop throws only
  when its log line 42 does, before the rendering starts, whatever the rendering does.
  When line 42 has passed for a product and \<^verbatim>\<open>generateHangTagPDF\<close> throws, the round leaves
  the archive as it was and the loop goes on with the next product. When the handler answers with the archive, the calls
  \<^verbatim>\<open>zip.file\<close> it made are, in order, the entries of the products \<open>js\<close>; a product is among
  them exactly when its rendering did not throw, and each of them has an entry of its
  name in the archive.
\<close>

theorem render_failure_skips_product:
  "(process_product pdfkit E options i product z = None) = (\<not> logs E product)
   \<and> (logs E product \<and> generateHangTagPDF pdfkit E product options = None \<longrightarrow>
      process_product pdfkit E options i product z = Some z
      \<and> process_from pdfkit E options i (product # products) z
          = process_from pdfkit E options (i + 1) products z)
   \<and> (handler pdfkit zipgen E body = Archive bytes \<longrightarrow>
        (\<exists>ps opts a js. get_prop body ''products'' = Some (JArr ps)
           \<and> get_prop body ''options'' = Some opts \<and> zipgen a = Some bytes
           \<and> sorted_wrt (<) js
           \<and> map Some a = map (\<lambda>j. rendered pdfkit E (default_options opts) j (ps ! j)) js
           \<and> (\<forall>j<length ps. (j \<in> set js)
                 = (generateHangTagPDF pdfkit E (ps ! j) (default_options opts) \<noteq> None))
           \<and> (\<forall>j\<in>set js. \<exists>e. rendered pdfkit E (default_options opts) j (ps ! j) = Some e
                 \<and> e \<in> set a \<and> fst e \<in> fst ` set (zip_entries a))))"
proof (intro conjI impI)
  show "(process_product pdfkit E options i product z = None) = (\<not> logs E product)"
    by (simp add: process_product_eq)
next
  assume a: "logs E product \<and> generateHangTagPDF pdfkit E product options = None"
  then have "rendered pdfkit E options i product = None"
    by (simp add: rendered_def)
  with a show "process_product pdfkit E options i product z = Some z"
    by (simp add: process_product_eq)
  then show "process_from pdfkit E options i (product # products) z
          = process_from pdfkit E options (i + 1) products z"
    by simp
next
  assume h: "handler pdfkit zipgen E body = Archive bytes"
  from handler_Archive [OF h] obtain ps opts a where
    ps: "get_prop body ''products'' = Some (JArr ps)" and opts: "get_prop body ''options'' = Some opts"
    and run: "process_from pdfkit E (default_options opts) 0 ps [] = Some a"
    and gen: "zipgen a = Some bytes"
    by blast
  let ?r = "\<lambda>j. rendered pdfkit E (default_options opts) j (ps ! j)"
  from process_from_Some [OF run] obtain js where
    srt: "sorted_wrt (<) js" and rng: "\<forall>j\<in>set js. j < length ps"
    and ent: "map Some a = map ?r js"
    and non: "\<forall>j. j < length ps \<and> j \<notin> set js \<longrightarrow> ?r j = None"
    by auto
  from run have lg: "list_all (logs E) ps"
    using process_from_None [of pdfkit E "default_options opts" 0 ps "[]"] by auto
  have inl: "\<exists>e. ?r j = Some e \<and> e \<in> set a \<and> fst e \<in> fst ` set (zip_entries a)" if "j \<in> set js" for j
  proof -
    from that have "?r j \<in> set (map ?r js)" by simp
    with ent have "?r j \<in> set (map Some a)" by simp
    then obtain e where "?r j = Some e" "e \<in> set a" by auto
    then show ?thesis using zip_entries_names [of "fst e" a] by auto
  qed
  have iff: "(j \<in> set js) = (generateHangTagPDF pdfkit E (ps ! j) (default_options opts) \<noteq> None)"
    if "j < length ps" for j
  proof (cases "j \<in> set js")
    case True
    from inl [OF True] show ?thesis using True
      by (auto simp: rendered_def split: bind_splits)
  next
    case False
    with that non have none: "?r j = None" by simp
    from lg that have "logs E (ps ! j)" by (simp add: list_all_length)
    from logs_filename [OF this] obtain n where "filename_of E j (ps ! j) = Some n" by blast
    with none False show ?thesis
      by (auto simp: rendered_def split: bind_splits)
  qed
  from ps opts gen srt ent iff inl
  show "\<exists>ps opts a js. get_prop body ''products'' = Some (JArr ps)
           \<and> get_prop body ''options'' = Some opts \<and> zipgen a = Some bytes
           \<and> sorted_wrt (<) js
           \<and> map Some a = map (\<lambda>j. rendered pdfkit E (default_options opts) j (ps ! j)) js
           \<and> (\<forall>j<length ps. (j \<in> set js)
                 = (generateHangTagPDF pdfkit E (ps ! j) (default_options opts) \<noteq> None))
           \<and> (\<forall>j\<in>set js. \<exists>e. rendered pdfkit E (default_options opts) j (ps ! j) = Some e
                 \<and> e \<in> set a \<and> fst e \<in> fst ` set (zip_entries a))"
    by blast
qed

theorem render_failure_skips_product_witness:
  "logs exact_engine bad_tags \<and> generateHangTagPDF unit_pdf exact_engine bad_tags (JObj []) = None
   \<and> process_from unit_pdf exact_engine (JObj []) 1 [bad_tags, good_b] [(''A-hangtag.pdf'', ())]
       = process_from unit_pdf exact_engine (JObj []) (1 + 1) [good_b] [(''A-hangtag.pdf'', ())]
   \<and> handler unit_pdf Some exact_engine demo_body = Archive [(''A-hangtag.pdf'', ()), (''B-hangtag.pdf'', ())]
   \<and> (\<exists>ps js. get_prop demo_body ''products'' = Some (JArr ps) \<and> sorted_wrt (<) js
        \<and> map Some [(''A-hangtag.pdf'', ()), (''B-hangtag.pdf'', ())]
             = map (\<lambda>j. rendered unit_pdf exact_engine (JObj []) j (ps ! j)) js
        \<and> (\<forall>j<length ps. (j \<in> set js)
                 = (generateHangTagPDF unit_pdf exact_engine (ps ! j) (JObj []) \<noteq> None)))"
proof -
  note t = render_failure_skips_product [where E = exact_engine and product = bad_tags
      and pdfkit = unit_pdf and options = "JObj []" and i = 1 and z = "[(''A-hangtag.pdf'', ())]"
      and products = "[good_b]" and zipgen = Some and body = demo_body
      and bytes = "[(''A-hangtag.pdf'', ()), (''B-hangtag.pdf'', ())]"]
  have opts: "get_prop demo_body ''options'' = Some Undefined"
    by (simp add: demo_body_def)
  from t demo_bad have c1: "process_from unit_pdf exact_engine (JObj []) 1 [bad_tags, good_b] [(''A-hangtag.pdf'', ())]
       = process_from unit_pdf exact_engine (JObj []) (1 + 1) [good_b] [(''A-hangtag.pdf'', ())]"
    by blast
  from t demo_handler obtain ps opts' a js where
    "get_prop demo_body ''products'' = Some (JArr ps)" "get_prop demo_body ''options'' = Some opts'"
    "Some a = Some [(''A-hangtag.pdf'', ()), (''B-hangtag.pdf'', ())]" "sorted_wrt (<) js"
    "map Some a = map (\<lambda>j. rendered unit_pdf exact_engine (default_options opts') j (ps ! j)) js"
    "\<forall>j<length ps. (j \<in> set js)
                 = (generateHangTagPDF unit_pdf exact_engine (ps ! j) (default_options opts') \<noteq> None)"
    by blast
  with opts have c2: "\<exists>ps js. get_prop demo_body ''products'' = Some (JArr ps) \<and> sorted_wrt (<) js
        \<and> map Some [(''A-hangtag.pdf'', ()), (''B-hangtag.pdf'', ())]
             = map (\<lambda>j. rendered unit_pdf exact_engine (JObj []) j (ps ! j)) js
        \<and> (\<forall>j<length ps. (j \<in> set js)
                 = (generateHangTagPDF unit_pdf exact_engine (ps ! j) (JObj []) \<noteq> None))"
    by (auto simp: default_options_def)
  from demo_bad c1 demo_handler c2 show ?thesis by blast
qed

text \<open>
  C2 (the price of a record whose \<^verbatim>\<open>price\<close> is not numeric): the claim says it is \<open>0\<close>,
  never \<^verbatim>\<open>NaN\<close>. For the record \<^verbatim>\<open>{"price": "abc"}\<close> the extraction gives the price
  \<^verbatim>\<open>NaN\<close>, and the tag shows the price text \<^verbatim>\<open>$NaN\<close>: \<^verbatim>\<open>parseFloat\<close> is applied to the first
  truthy of the two keys or \<open>0\<close>, and its \<^verbatim>\<open>NaN\<close> is not replaced (as line 116 and line 163
  replace the \<^verbatim>\<open>NaN\<close> of \<^verbatim>\<open>parseInt\<close>).
\<close>

theorem unparseable_price_is_NaN:
  "\<exists>f ops. extract_fields E (JObj [(''price'', JStr ''abc'')]) = Some f \<and> price f = NaN
     \<and> draw E f (JObj []) = Some ops
     \<and> Text (JStr ''$NaN'') (Fin 30) (Fin 175) [Width 134, Align ''center''] \<in> set ops"
  by (simp add: extract_fields_def draw_def draw_msrp_def draw_recon_def eval_defs)

text \<open>
  C3 (the extraction never fails), as the claim states it, fails: for the record
  \<^verbatim>\<open>{"tags": 5}\<close> the extraction throws (a number has no method \<^verbatim>\<open>includes\<close>).
\<close>

theorem numeric_tags_throw: "\<forall>E. extract_fields E (JObj [(''tags'', JNum (Fin 5))]) = None"
  by (simp add: extract_fields_def recon_flag_def lor_def)

text \<open>
  C3 as amended: the extraction completes, with a value for every field, for every record
  that is not \<^verbatim>\<open>null\<close> and whose \<^verbatim>\<open>tags\<close> are missing, \<^verbatim>\<open>null\<close>, a string or a list, whose
  \<^verbatim>\<open>sku\<close> and \<^verbatim>\<open>Variant SKU\<close> are missing, \<^verbatim>\<open>null\<close> or strings, whose four price keys hold no
  list or object, and whose \<^verbatim>\<open>body_html\<close> and \<^verbatim>\<open>Body (HTML)\<close> are missing, \<^verbatim>\<open>null\<close> or strings.
\<close>

theorem extraction_of_plain_record:
  assumes "plain_record product"
  shows "\<exists>f. extract_fields E product = Some f"
  using assms by (rule extract_plain)

theorem extraction_of_plain_record_witness:
  "plain_record with_msrp \<and> (\<exists>f. extract_fields exact_engine with_msrp = Some f)"
proof -
  have p: "plain_record with_msrp"
    by (simp add: plain_record_def with_msrp_def field_def absent_def)
  from extraction_of_plain_record [OF p] p show ?thesis by blast
qed

text \<open>
  C4 (the name of the archive entry), as the claim states it, fails: a batch of the one
  record \<^verbatim>\<open>{"Variant SKU": "ABC"}\<close> gives the entry \<^verbatim>\<open>product-1-hangtag.pdf\<close>, not
  \<^verbatim>\<open>ABC-hangtag.pdf\<close>.
\<close>

theorem variant_sku_is_not_the_filename:
  "handler unit_pdf Some exact_engine (JObj [(''products'', JArr [only_variant_sku])])
     = Archive [(''product-1-hangtag.pdf'', ())]
   \<and> ''product-1-hangtag.pdf'' \<noteq> ''ABC-hangtag.pdf''"
  by (simp add: run_defs run2_defs eval_defs only_variant_sku_def unit_pdf_def exact_engine_def)

text \<open>
  C4 as amended: the entry of product \<open>i\<close> (counted from 0) is named identifier and
  \<^verbatim>\<open>-hangtag.pdf\<close>, where the identifier is the string of the record's \<^verbatim>\<open>sku\<close> when that is
  truthy, else of its \<^verbatim>\<open>handle\<close> when that is truthy, else \<^verbatim>\<open>product-{i+1}\<close>; the key
  \<^verbatim>\<open>Variant SKU\<close> is not read for the name.
\<close>

theorem entry_name_from_sku_or_handle:
  assumes "rendered pdfkit E options i product = Some (name, buf)"
  shows "generateHangTagPDF pdfkit E product options = Some buf
       \<and> (\<exists>ident. name = ident @ ''-hangtag.pdf''
            \<and> (if truthy (field product ''sku'') then to_string E (field product ''sku'') = Some ident
                else if truthy (field product ''handle'')
                     then to_string E (field product ''handle'') = Some ident
                     else ident = ''product-'' @ digits_of (i + 1)))"
proof -
  from assms have g: "generateHangTagPDF pdfkit E product options = Some buf"
    and n: "filename_of E i product = Some name"
    by (auto simp: rendered_def split: bind_splits)
  from n have na: "\<not> absent product"
    by (cases product) (auto simp: filename_of_def lor_def absent_def)
  from n show ?thesis
    by (auto simp: g filename_of_def lor_def get_prop_field [OF na] split: bind_splits if_splits)
qed

theorem entry_name_from_sku_or_handle_witness:
  "rendered unit_pdf exact_engine (JObj []) 0 only_variant_sku = Some (''product-1-hangtag.pdf'', ())
   \<and> \<not> truthy (field only_variant_sku ''sku'') \<and> \<not> truthy (field only_variant_sku ''handle'')
   \<and> generateHangTagPDF unit_pdf exact_engine only_variant_sku (JObj []) = Some ()
   \<and> (\<exists>ident. ''product-1-hangtag.pdf'' = ident @ ''-hangtag.pdf'' \<and> ident = ''product-'' @ digits_of (0 + 1))"
proof -
  have f: "\<not> truthy (field only_variant_sku ''sku'')" "\<not> truthy (field only_variant_sku ''handle'')"
    by (simp_all add: only_variant_sku_def field_def)
  from entry_name_from_sku_or_handle [OF only_variant_sku_rendered] f only_variant_sku_rendered
  show ?thesis by simp
qed



text \<open>
  C6 (the reconditioned banner), as the claim states it, fails: the record
  \<^verbatim>\<open>{"sku": "ABC", "Variant SKU": "XYZ-R"}\<close> has no tags and its identifier \<^verbatim>\<open>ABC\<close> does not
  end with \<^verbatim>\<open>-R\<close>, and its document has the banner.
\<close>

theorem banner_without_R_identifier:
  "\<exists>f ops. extract_fields exact_engine recon_by_variant = Some f
      \<and> draw exact_engine f (JObj []) = Some ops
      \<and> field recon_by_variant ''tags'' = Undefined
      \<and> sku f = JStr ''ABC'' \<and> \<not> endsWith ''-R'' ''ABC''
      \<and> Rect 0 240 (972 / 5) (114 / 5) \<in> set ops
      \<and> Text (JStr ''Factory Reconditioned Tool'') (Fin 8) (Fin 248) [] \<in> set ops
      \<and> Text (JStr ''ABC'') (Fin 130) (Fin 248) [] \<in> set ops"
  by (simp add: run2_defs eval_defs recon_by_variant_def exact_engine_def field_def endsWith_def)

text \<open>
  C6 as amended: the document has the banner (the bar and its text) exactly when the
  flag is true, and the flag is true exactly when the tags contain \<^verbatim>\<open>Recon\<close> or \<^verbatim>\<open>recon\<close>, or
  the value of \<^verbatim>\<open>sku\<close> ends with \<^verbatim>\<open>-R\<close>, or the value of \<^verbatim>\<open>Variant SKU\<close> ends with \<^verbatim>\<open>-R\<close>
  (each key on its own, whichever of them the identifier is).
\<close>

theorem recon_banner_iff_flag:
  assumes "extract_fields E product = Some f" and "draw E f options = Some ops"
  shows "(Rect 0 240 (972 / 5) (114 / 5) \<in> set ops) = truthy (isRecon f)
       \<and> (Text (JStr ''Factory Reconditioned Tool'') (Fin 8) (Fin 248) [] \<in> set ops) = truthy (isRecon f)
       \<and> truthy (isRecon f) = (contains_tag (field product ''tags'') ''Recon''
                    \<or> contains_tag (field product ''tags'') ''recon''
                    \<or> ends_in (field product ''sku'') ''-R''
                    \<or> ends_in (field product ''Variant SKU'') ''-R'')"
  using banner_ops [OF assms(2)] recon_flag_iff [OF extract_fieldsD(2) [OF assms(1)]]
  by simp

theorem recon_banner_iff_flag_witness:
  "\<exists>f ops. extract_fields exact_engine recon_by_variant = Some f
      \<and> draw exact_engine f (JObj []) = Some ops
      \<and> (Rect 0 240 (972 / 5) (114 / 5) \<in> set ops) = truthy (isRecon f)
      \<and> (Text (JStr ''Factory Reconditioned Tool'') (Fin 8) (Fin 248) [] \<in> set ops) = truthy (isRecon f)
      \<and> truthy (isRecon f) = (contains_tag (field recon_by_variant ''tags'') ''Recon''
                    \<or> contains_tag (field recon_by_variant ''tags'') ''recon''
                    \<or> ends_in (field recon_by_variant ''sku'') ''-R''
                    \<or> ends_in (field recon_by_variant ''Variant SKU'') ''-R'')"
proof -
  obtain f ops where a: "extract_fields exact_engine recon_by_variant = Some f"
    and b: "draw exact_engine f (JObj []) = Some ops"
    using recon_by_variant_runs by blast
  from recon_banner_iff_flag [OF a b] a b show ?thesis by blast
qed

text \<open>
  C7 (as stated it fails: the archive has folder entries too): for a request with the
  one product \<^verbatim>\<open>{sku: 'a/b'}\<close> the handler calls \<^verbatim>\<open>zip.file\<close> once, with the name
  \<^verbatim>\<open>a/b-hangtag.pdf\<close>, and the archive it generates has two entries: the folder \<^verbatim>\<open>a/\<close>, which
  is the entry of no product, and the file.
\<close>

theorem folder_entry_of_no_product:
  "get_prop slash_body ''products'' = Some (JArr [slash_sku])
   \<and> rendered unit_pdf exact_engine (JObj []) 0 slash_sku = Some (''a/b-hangtag.pdf'', ())
   \<and> handler unit_pdf (\<lambda>z. Some (zip_entries z)) exact_engine slash_body
       = Archive [(''a/'', None), (''a/b-hangtag.pdf'', Some ())]"
  by (simp add: rendered_def run_defs eval_defs zip_defs slash_body_def slash_sku_def unit_pdf_def
        exact_engine_def)

text \<open>
  C7 as amended (the calls and the file entries follow the input): when the handler
  answers with the archive, the calls \<^verbatim>\<open>zip.file\<close> it made are the entries (name derived by
  line 46, and buffer) of products at increasing positions \<open>js\<close> of the input list, one call
  each; so there are no more calls, and no more file entries, than products, every file
  entry was put by a call, and every other entry is a folder whose name is the beginning
  of the name of a call.
\<close>

theorem archive_entries_follow_input:
  assumes "handler pdfkit zipgen E body = Archive bytes"
  shows "\<exists>ps opts z js. get_prop body ''products'' = Some (JArr ps)
           \<and> get_prop body ''options'' = Some opts \<and> zipgen z = Some bytes
           \<and> sorted_wrt (<) js \<and> (\<forall>j\<in>set js. j < length ps)
           \<and> map Some z = map (\<lambda>j. rendered pdfkit E (default_options opts) j (ps ! j)) js
           \<and> length z \<le> length ps
           \<and> length (file_entries (zip_entries z)) \<le> length ps
           \<and> set (file_entries (zip_entries z)) \<subseteq> set z
           \<and> (\<forall>n\<in>set (folder_names (zip_entries z)). \<exists>c\<in>set z. startsWith n (fst c))"
proof -
  from handler_Archive [OF assms] obtain ps opts z where
    ps: "get_prop body ''products'' = Some (JArr ps)" and opts: "get_prop body ''options'' = Some opts"
    and run: "process_from pdfkit E (default_options opts) 0 ps [] = Some z"
    and gen: "zipgen z = Some bytes"
    by blast
  from process_from_Some [OF run] obtain js where
    srt: "sorted_wrt (<) js" and rng: "\<forall>j\<in>set js. j < length ps"
    and ent: "map Some z = map (\<lambda>j. rendered pdfkit E (default_options opts) j (ps ! j)) js"
    by auto
  from ent have "length z = length js"
    by (metis length_map)
  with sorted_indices_length [OF srt rng] have len: "length z \<le> length ps"
    by simp
  with zip_entries_length [of z] have files: "length (file_entries (zip_entries z)) \<le> length ps"
    by simp
  have folders: "\<forall>n\<in>set (folder_names (zip_entries z)). \<exists>c\<in>set z. startsWith n (fst c)"
    using zip_entries_folders [of _ z] by blast
  from ps opts gen srt rng ent len files zip_entries_files [of z] folders show ?thesis
    by blast
qed

theorem archive_entries_follow_input_witness:
  "handler unit_pdf Some exact_engine mixed_body
     = Archive [(''A-hangtag.pdf'', ()), (''a/b-hangtag.pdf'', ())]
   \<and> zip_entries [(''A-hangtag.pdf'', ()), (''a/b-hangtag.pdf'', ())]
       = [(''A-hangtag.pdf'', Some ()), (''a/'', None), (''a/b-hangtag.pdf'', Some ())]
   \<and> (\<exists>ps js. get_prop mixed_body ''products'' = Some (JArr ps)
        \<and> sorted_wrt (<) js \<and> (\<forall>j\<in>set js. j < length ps)
        \<and> map Some [(''A-hangtag.pdf'', ()), (''a/b-hangtag.pdf'', ())]
             = map (\<lambda>j. rendered unit_pdf exact_engine (JObj []) j (ps ! j)) js
        \<and> length [(''A-hangtag.pdf'', ()), (''a/b-hangtag.pdf'', ())] \<le> length ps
        \<and> length (file_entries [(''A-hangtag.pdf'', Some ()), (''a/'', None),
                                   (''a/b-hangtag.pdf'', Some ())]) \<le> length ps)
   \<and> (\<exists>c\<in>set [(''A-hangtag.pdf'', ()), (''a/b-hangtag.pdf'', ())]. startsWith ''a/'' (fst c))"
proof -
  have opts: "get_prop mixed_body ''options'' = Some Undefined"
    by (simp add: mixed_body_def)
  from archive_entries_follow_input [OF mixed_handler] obtain ps opts' z js where
    "get_prop mixed_body ''products'' = Some (JArr ps)" "get_prop mixed_body ''options'' = Some opts'"
    and z: "Some z = Some [(''A-hangtag.pdf'', ()), (''a/b-hangtag.pdf'', ())]"
    and "sorted_wrt (<) js" "\<forall>j\<in>set js. j < length ps"
    "map Some z = map (\<lambda>j. rendered unit_pdf exact_engine (default_options opts') j (ps ! j)) js"
    "length z \<le> length ps" "length (file_entries (zip_entries z)) \<le> length ps"
    and folders: "\<forall>n\<in>set (folder_names (zip_entries z)). \<exists>c\<in>set z. startsWith n (fst c)"
    by blast
  with opts have c1: "\<exists>ps js. get_prop mixed_body ''products'' = Some (JArr ps)
        \<and> sorted_wrt (<) js \<and> (\<forall>j\<in>set js. j < length ps)
        \<and> map Some [(''A-hangtag.pdf'', ()), (''a/b-hangtag.pdf'', ())]
             = map (\<lambda>j. rendered unit_pdf exact_engine (JObj []) j (ps ! j)) js
        \<and> length [(''A-hangtag.pdf'', ()), (''a/b-hangtag.pdf'', ())] \<le> length ps
        \<and> length (file_entries [(''A-hangtag.pdf'', Some ()), (''a/'', None),
                                   (''a/b-hangtag.pdf'', Some ())]) \<le> length ps"
    by (auto simp: default_options_def mixed_entries)
  from z folders have c2: "\<exists>c\<in>set [(''A-hangtag.pdf'', ()), (''a/b-hangtag.pdf'', ())]. startsWith ''a/'' (fst c)"
    by (simp add: mixed_entries)
  from mixed_handler mixed_entries c1 c2 show ?thesis by blast
qed
text \<open>
  C8 (the MSRP line), as the claim states it, fails: for the record
  \<^verbatim>\<open>{"price": "10", "compare_at_price": "Infinity"}\<close> the compare price is infinite, the
  line is drawn, and its text is \<^verbatim>\<open>MSRP $Infinity\<close>, which has no decimals.
\<close>

theorem msrp_of_infinite_compare_price:
  "\<exists>f ops. extract_fields exact_engine infinite_msrp = Some f
      \<and> draw exact_engine f (JObj []) = Some ops
      \<and> comparePrice f = PInf
      \<and> struck_texts ops = [JStr ''MSRP $Infinity''] \<and> \<not> two_decimals ''Infinity''"
  by (simp add: run2_defs eval_defs infinite_msrp_def two_decimals_def exact_engine_def)

text \<open>
  C8 as amended: the document has one struck-through text, the MSRP line, exactly when
  \<^verbatim>\<open>comparePrice > price\<close> and \<^verbatim>\<open>comparePrice > 0\<close>, and none otherwise; its text is \<^verbatim>\<open>MSRP $\<close>
  and \<^verbatim>\<open>comparePrice.toFixed(2)\<close>, which has exactly two decimals when the compare price is
  finite and below \<open>10^21\<close>.
\<close>

theorem msrp_line_iff:
  assumes "extract_fields E product = Some f" and "draw E f options = Some ops"
  shows "struck_texts ops =
           (if num_gt (comparePrice f) (price f) \<and> num_gt (comparePrice f) (Fin 0)
            then [JStr (''MSRP $'' @ toFixed E 2 (comparePrice f))] else [])
         \<and> (\<forall>c. comparePrice f = Fin c \<and> 0 < c \<and> c < 10 ^ 21
               \<longrightarrow> two_decimals (toFixed E 2 (comparePrice f)))"
proof
  from draw_sections [OF assms(2)] obtain v s n m y y' where
    ops: "ops =
     [NewDocument (972 / 5) (1314 / 5) 8,
          Rect 8 15 60 20, FillAndStroke ''#e53e3e'' ''#e53e3e'',
          FontSize (Fin 8), Font ''Helvetica-Bold'', FillColor ''white'',
          Text (JStr (upper E v)) (Fin 12) (Fin 22) [Width 52, Align ''center''],
          FontSize (Fin 10), FillColor ''black'', Font ''Helvetica-Bold'',
          Text (JStr (''Model '' @ s)) (Fin 100) (Fin 20) [Width 86, Align ''right''],
          FontSize n, Font ''Helvetica-Bold'', FillColor ''black'',
          Text (title f) (Fin 12) (Fin 45) [Width 170, Align ''center'', LineGap 1],
          Rect 25 85 144 80, Stroke ''#cccccc'',
          FontSize (Fin 8), FillColor ''#999999'',
          Text (JStr ''Product Image'') (Fin 25) (num_add E (Fin 85) (Fin 36))
            [Width 144, Align ''center'']]
         @ fst (draw_includes E (includesText f))
         @ [FontSize m, Font ''Helvetica-Bold'', FillColor ''black'',
            Text (JStr (''$'' @ toFixed E 2 (price f))) (Fin 30) y [Width 134, Align ''center'']]
         @ draw_msrp E f y'
         @ draw_recon f
         @ [DocEnd]"
    by blast
  show "struck_texts ops =
           (if num_gt (comparePrice f) (price f) \<and> num_gt (comparePrice f) (Fin 0)
            then [JStr (''MSRP $'' @ toFixed E 2 (comparePrice f))] else [])"
    unfolding ops by simp
  show "\<forall>c. comparePrice f = Fin c \<and> 0 < c \<and> c < 10 ^ 21
               \<longrightarrow> two_decimals (toFixed E 2 (comparePrice f))"
    using toFixed_two_decimals by auto
qed

theorem msrp_line_iff_witness:
  "\<exists>f ops. extract_fields exact_engine with_msrp = Some f \<and> draw exact_engine f (JObj []) = Some ops
     \<and> comparePrice f = Fin 25 \<and> (0::rat) < 25 \<and> (25::rat) < 10 ^ 21
     \<and> struck_texts ops = [JStr ''MSRP $25.00''] \<and> two_decimals ''25.00''"
proof -
  from with_msrp_runs obtain f ops where
    a: "extract_fields exact_engine with_msrp = Some f" and b: "draw exact_engine f (JObj []) = Some ops"
    and p: "price f = Fin (1999 / 100)" and c: "comparePrice f = Fin 25"
    by blast
  have t: "toFixed exact_engine 2 (Fin 25) = ''25.00''"
    by (simp add: eval_defs)
  from msrp_line_iff [OF a b] have "struck_texts ops = [JStr ''MSRP $25.00'']" and "two_decimals ''25.00''"
    by (simp_all add: p c t)
  with a b c show ?thesis by simp
qed

text \<open>
  C9 (the synthesized identifier is not drawn): for a record whose \<^verbatim>\<open>sku\<close> and
  \<^verbatim>\<open>Variant SKU\<close> are missing (or falsy), the identifier of the document is the empty
  string: the label on the model line is \<^verbatim>\<open>Model \<close> and nothing else, and the text on the
  right of the banner, when there is a banner, is empty. The name \<^verbatim>\<open>product-{i+1}\<close> is made for
  the archive entry only (when \<^verbatim>\<open>handle\<close> is missing too); the document is drawn from the
  record and the options, not from the position \<open>i\<close>.
\<close>

theorem fallback_identifier_not_drawn:
  assumes "extract_fields E product = Some f" and "draw E f options = Some ops"
    and "\<not> truthy (field product ''sku'')" and "\<not> truthy (field product ''Variant SKU'')"
  shows "sku f = JStr []
       \<and> Text (JStr ''Model '') (Fin 100) (Fin 20) [Width 86, Align ''right''] \<in> set ops
       \<and> (\<forall>t. Text t (Fin 100) (Fin 20) [Width 86, Align ''right''] \<in> set ops \<longrightarrow> t = JStr ''Model '')
       \<and> (truthy (isRecon f) \<longrightarrow> Text (JStr []) (Fin 130) (Fin 248) [] \<in> set ops)
       \<and> (\<forall>t. Text t (Fin 130) (Fin 248) [] \<in> set ops \<longrightarrow> t = JStr [])
       \<and> (\<not> truthy (field product ''handle'') \<longrightarrow>
            filename_of E i product = Some (''product-'' @ digits_of (i + 1) @ ''-hangtag.pdf''))"
proof -
  note d = extract_fieldsD [OF assms(1)]
  from text_or_falsy [OF d(1) assms(3) assms(4)] d(5) have sku: "sku f = JStr []"
    by simp
  from draw_sections [OF assms(2)] obtain v s n m y y' where
    st: "to_string E (sku f) = Some s" and
    ops: "ops =
     [NewDocument (972 / 5) (1314 / 5) 8,
          Rect 8 15 60 20, FillAndStroke ''#e53e3e'' ''#e53e3e'',
          FontSize (Fin 8), Font ''Helvetica-Bold'', FillColor ''white'',
          Text (JStr (upper E v)) (Fin 12) (Fin 22) [Width 52, Align ''center''],
          FontSize (Fin 10), FillColor ''black'', Font ''Helvetica-Bold'',
          Text (JStr (''Model '' @ s)) (Fin 100) (Fin 20) [Width 86, Align ''right''],
          FontSize n, Font ''Helvetica-Bold'', FillColor ''black'',
          Text (title f) (Fin 12) (Fin 45) [Width 170, Align ''center'', LineGap 1],
          Rect 25 85 144 80, Stroke ''#cccccc'',
          FontSize (Fin 8), FillColor ''#999999'',
          Text (JStr ''Product Image'') (Fin 25) (num_add E (Fin 85) (Fin 36))
            [Width 144, Align ''center'']]
         @ fst (draw_includes E (includesText f))
         @ [FontSize m, Font ''Helvetica-Bold'', FillColor ''black'',
            Text (JStr (''$'' @ toFixed E 2 (price f))) (Fin 30) y [Width 134, Align ''center'']]
         @ draw_msrp E f y'
         @ draw_recon f
         @ [DocEnd]"
    by blast
  from st sku have s: "s = []" by simp
  have inc: "Text t (Fin 100) (Fin 20) [Width 86, Align ''right''] \<notin> set (fst (draw_includes E (includesText f)))"
    "Text t (Fin 130) (Fin 248) [] \<notin> set (fst (draw_includes E (includesText f)))" for t
    using draw_includes_ops [of "Text t (Fin 100) (Fin 20) [Width 86, Align ''right'']" E "includesText f"]
      draw_includes_ops [of "Text t (Fin 130) (Fin 248) []" E "includesText f"]
    by auto
  have c2: "Text (JStr ''Model '') (Fin 100) (Fin 20) [Width 86, Align ''right''] \<in> set ops"
    by (simp add: ops s)
  have c3: "\<forall>t. Text t (Fin 100) (Fin 20) [Width 86, Align ''right''] \<in> set ops \<longrightarrow> t = JStr ''Model ''"
    by (simp add: ops s inc draw_msrp_def draw_recon_def)
  have c4: "truthy (isRecon f) \<longrightarrow> Text (JStr []) (Fin 130) (Fin 248) [] \<in> set ops"
    by (simp add: ops sku draw_recon_def)
  have c5: "\<forall>t. Text t (Fin 130) (Fin 248) [] \<in> set ops \<longrightarrow> t = JStr []"
    by (simp add: ops sku inc draw_msrp_def draw_recon_def)
  have c6: "\<not> truthy (field product ''handle'') \<longrightarrow>
            filename_of E i product = Some (''product-'' @ digits_of (i + 1) @ ''-hangtag.pdf'')"
    using assms(3) d(1) by (simp add: filename_of_def lor_def get_prop_field)
  from sku c2 c3 c4 c5 c6 show ?thesis by blast
qed

theorem fallback_identifier_not_drawn_witness:
  "\<not> truthy (field anonymous_recon ''sku'') \<and> \<not> truthy (field anonymous_recon ''Variant SKU'')
   \<and> \<not> truthy (field anonymous_recon ''handle'')
   \<and> (\<exists>f ops. extract_fields exact_engine anonymous_recon = Some f
        \<and> draw exact_engine f (JObj []) = Some ops \<and> truthy (isRecon f)
        \<and> sku f = JStr []
        \<and> Text (JStr ''Model '') (Fin 100) (Fin 20) [Width 86, Align ''right''] \<in> set ops
        \<and> Text (JStr []) (Fin 130) (Fin 248) [] \<in> set ops)
   \<and> filename_of exact_engine 6 anonymous_recon = Some ''product-7-hangtag.pdf''"
proof -
  have a: "\<not> truthy (field anonymous_recon ''sku'')" "\<not> truthy (field anonymous_recon ''Variant SKU'')"
    "\<not> truthy (field anonymous_recon ''handle'')"
    by (simp_all add: anonymous_recon_def field_def)
  from anonymous_recon_runs obtain f ops where
    r: "extract_fields exact_engine anonymous_recon = Some f" "draw exact_engine f (JObj []) = Some ops"
      "truthy (isRecon f)"
    by blast
  note t = fallback_identifier_not_drawn [OF r(1) r(2) a(1) a(2), of 6]
  have n: "''product-'' @ digits_of (6 + 1) @ ''-hangtag.pdf'' = ''product-7-hangtag.pdf''"
    by (simp add: eval_defs)
  from t a r n show ?thesis by (simp del: append.simps)
qed

text \<open>
  C10 (the word \<^verbatim>\<open>and\<close> needs no word boundary): after any text \<open>a\<close> that holds no
  separator, the letters \<^verbatim>\<open>and\<close> (in either case) and a white space are a separator, also
  when \<open>a\<close> ends in a letter: the text is split into \<open>a\<close> and what follows the white space.
  The letters \<^verbatim>\<open>and\<close> at the end of the text, with no white space after them, are no
  separator. So \<^verbatim>\<open>Band saw\<close> gives the two items \<^verbatim>\<open>B\<close> and \<^verbatim>\<open>saw\<close>, and \<^verbatim>\<open>Hammer and\<close> stays one
  item.
\<close>

theorem and_splits_without_word_boundary:
  assumes "no_match_before sep_re a []"
    and "ascii_upper x1 = CHR ''A''" "ascii_upper x2 = CHR ''N''" "ascii_upper x3 = CHR ''D''"
    and "is_ws w"
  shows "split sep_re (a @ [x1, x2, x3, w] @ b) = a # split sep_re (dropWhile is_ws b)
       \<and> split sep_re (a @ [x1, x2, x3]) = [a @ [x1, x2, x3]]
       \<and> includeItems ''Band saw'' = [''B'', ''saw'']
       \<and> includeItems ''Hammer and'' = [''Hammer and'']"
proof -
  have nw: "\<not> is_ws x1" "\<not> is_ws x2" "\<not> is_ws x3"
    using assms(2,3,4) upper_letter_not_ws by blast+
  have "split_from sep_re [] (a @ x1 # x2 # x3 # w # b)
          = split_from sep_re ([] @ a) (x1 # x2 # x3 # w # b)"
    by (rule split_from_no_match) (rule no_match_before_sep_extend [OF assms(1) nw])
  also have "\<dots> = a # split_from sep_re [] (dropWhile is_ws b)"
  proof -
    have "length (dropWhile is_ws b) \<le> length b" by (rule length_dropWhile_le)
    then show ?thesis
      by (simp add: rx_at_sep_and [OF assms(2,3,4,5)])
  qed
  finally have one: "split sep_re (a @ [x1, x2, x3, w] @ b) = a # split sep_re (dropWhile is_ws b)"
    by (simp add: split_def)
  have tail: "no_match_before sep_re [x1, x2, x3] []"
    using upper_letter_not_sep [of x1] upper_letter_not_sep [of x2] upper_letter_not_sep [of x3]
      assms(2,3,4)
    by (simp add: rx_at_sep_short)
  have "split_from sep_re [] (a @ x1 # x2 # x3 # []) = split_from sep_re ([] @ a) (x1 # x2 # x3 # [])"
    by (rule split_from_no_match) (rule no_match_before_sep_extend [OF assms(1) nw])
  also have "\<dots> = [a @ [x1, x2, x3]]"
    using split_from_unsplit [OF tail, of a] by simp
  finally have two: "split sep_re (a @ [x1, x2, x3]) = [a @ [x1, x2, x3]]"
    by (simp add: split_def)
  from one two include_items_examples(1,2) show ?thesis by simp
qed

theorem and_splits_without_word_boundary_witness:
  "no_match_before sep_re ''B'' [] \<and> ascii_upper CHR ''a'' = CHR ''A'' \<and> ascii_upper CHR ''n'' = CHR ''N''
   \<and> ascii_upper CHR ''d'' = CHR ''D'' \<and> is_ws CHR '' ''
   \<and> split sep_re ''Band saw'' = ''B'' # split sep_re (dropWhile is_ws ''saw'')
   \<and> split sep_re ''Band'' = [''Band'']"
proof -
  have h: "no_match_before sep_re ''B'' []" "is_ws CHR '' ''"
    by (simp_all add: rx_at_sep_short is_ws_def)
  from and_splits_without_word_boundary [OF h(1) ascii_upper_and h(2), of "''saw''"] h ascii_upper_and
  show ?thesis by simp
qed

end
